theory Spec2Isabelle
  imports Main "HOL-Library.Word"
begin

unbundle bit_operations_syntax

section \<open>Data model of TPI\_Programmer.ino\<close>

text \<open>
  The sketch runs on an 8-bit AVR: \<^verbatim>\<open>uint8_t\<close> and \<^verbatim>\<open>char\<close> are 8 bits,
  \<^verbatim>\<open>int\<close>, \<^verbatim>\<open>unsigned int\<close> and \<^verbatim>\<open>unsigned short\<close> are 16 bits,
  \<^verbatim>\<open>uint64_t\<close> is 64 bits.
\<close>

type_synonym byte = "8 word"

text \<open>The four arguments of \<^verbatim>\<open>ERROR_data\<close>, and the \<^verbatim>\<open>program error:\<close> report of the
  verification loop (address, expected byte, byte read back).\<close>

datatype error = TimeOut | HexError | TooLarge | Checksum | ProgramError "16 word" byte byte

text \<open>
  The global variables of the sketch, the one local variable of \<^verbatim>\<open>writeProgram\<close> that
  lives across records (\<^verbatim>\<open>currentByte\<close>), and the two peripherals.

  \<^item> \<open>serial\<close> is the serial line as the sketch will see it: \<open>Some c\<close> is a character waiting
    in the receive buffer, \<open>None\<close> is one millisecond in which nothing is received. After the
    end of the list nothing is ever received.
  \<^item> \<open>clock\<close> is the value of \<^verbatim>\<open>millis()\<close>; it advances while the sketch polls an empty
    receive buffer.
  \<^item> \<open>miso\<close> holds the bytes that the next calls of \<^verbatim>\<open>SPI.transfer\<close> will read back; after the
    end of the list the data line stays idle (high). \<open>mosi\<close> is the trace of the bytes sent.

  \<open>progSize\<close> and \<open>currentByte\<close> are 16-bit counters in the sketch; they stay below 4098 and
  are natural numbers here. \<open>type\<close> is the \<^verbatim>\<open>char type\<close> of the sketch (0 until a chip is
  identified).
\<close>

record state =
  adrs :: "16 word"
  data :: "byte list"
  progSize :: nat
  currentByte :: nat
  startTime :: nat
  timeout :: nat
  type :: nat
  serial :: "byte option list"
  clock :: nat
  miso :: "byte list"
  mosi :: "byte list"

text \<open>
  A call either never returns (\<open>Diverges\<close>: one of the unbounded polling loops of the sketch
  spins forever), or reports an error and makes \<^verbatim>\<open>writeProgram\<close> return false (\<open>Abort\<close>, with
  the state at that moment), or returns.
\<close>

datatype 'a result = Diverges | Abort error state | Return 'a

definition bind :: "'a result \<Rightarrow> ('a \<Rightarrow> 'b result) \<Rightarrow> 'b result" where
  "bind m f = (case m of Diverges \<Rightarrow> Diverges | Abort e s \<Rightarrow> Abort e s | Return x \<Rightarrow> f x)"

section \<open>Frame codec\<close>

text \<open>\<^verbatim>\<open>SPI.transfer(x)\<close>: clocks \<open>x\<close> out and returns the byte clocked in.\<close>

definition SPI_transfer :: "byte \<Rightarrow> state \<Rightarrow> byte \<times> state" where
  "SPI_transfer x s =
     (case miso s of
        [] \<Rightarrow> (0xff, s\<lparr>mosi := mosi s @ [x]\<rparr>)
      | r # rs \<Rightarrow> (r, s\<lparr>miso := rs, mosi := mosi s @ [x]\<rparr>))"

text \<open>The three folding steps of \<^verbatim>\<open>tpi_send_byte\<close> on \<^verbatim>\<open>par\<close>.\<close>

definition parity_fold :: "byte \<Rightarrow> byte" where
  "parity_fold d =
     (let p1 = d XOR drop_bit 4 d;
          p2 = p1 XOR drop_bit 2 p1
      in p2 XOR drop_bit 1 p2)"

text \<open>The two bytes \<^verbatim>\<open>tpi_send_byte\<close> hands to \<^verbatim>\<open>SPI.transfer\<close>, in order.\<close>

definition tpi_frame :: "byte \<Rightarrow> byte list" where
  "tpi_frame d = [0x03 OR push_bit 3 d, 0xf0 OR push_bit 3 (parity_fold d) OR drop_bit 5 d]"

definition tpi_send_byte :: "byte \<Rightarrow> state \<Rightarrow> state" where
  "tpi_send_byte d s =
     (let s1 = snd (SPI_transfer (tpi_frame d ! 0) s)
      in snd (SPI_transfer (tpi_frame d ! 1) s1))"

text \<open>
  \<^verbatim>\<open>do { b1 = SPI.transfer(0xff); } while (0xff == b1);\<close>
  Once \<open>miso\<close> is used up the line stays idle and the loop never exits.
\<close>

function recv_start :: "state \<Rightarrow> (byte \<times> state) result" where
  "recv_start s =
     (if miso s = [] then Diverges
      else (let (b1, s') = SPI_transfer 0xff s
            in if b1 = 0xff then recv_start s' else Return (b1, s')))"
  by pat_completeness auto
termination
  by (relation "measure (\<lambda>s. length (miso s))")
     (auto simp: SPI_transfer_def split: list.splits)

text \<open>
  \<^verbatim>\<open>while (0x7f != b1) { b2 <<= 1; if (0x80 & b1) b2 |= 1; b1 <<= 1; b1 |= 0x01; }\<close>
  With \<open>b1 = 0xff\<close> the loop would never exit (\<open>b1\<close> stays \<open>0xff\<close>).
\<close>

function align :: "byte \<Rightarrow> byte \<Rightarrow> byte result" where
  "align b1 b2 =
     (if b1 = 0x7f then Return b2
      else if b1 = 0xff then Diverges
      else align (push_bit 1 b1 OR 1)
                 (if b1 AND 0x80 \<noteq> 0 then push_bit 1 b2 OR 1 else push_bit 1 b2))"
  by pat_completeness auto

lemma not_shift_fill: "NOT (push_bit 1 b OR 1) = push_bit 1 (NOT b :: byte)"
  apply (rule bit_word_eqI)
  apply (simp only: bit_simps)
  apply auto
  done

lemma not_nonzero: "b1 \<noteq> 0xff \<Longrightarrow> NOT (b1::byte) \<noteq> 0"
proof
  assume a: "b1 \<noteq> 0xff" and "NOT b1 = 0"
  then have "NOT (NOT b1) = NOT 0" by simp
  then have "b1 = -1" by simp
  with a show False by simp
qed

termination align
proof (relation "measure (\<lambda>(b1, b2). LEAST n. push_bit n (NOT b1) = 0)")
  show "wf (measure (\<lambda>(b1, b2). LEAST n. push_bit n (NOT b1) = 0))" by simp
next
  fix b1 b2 :: byte
  assume "b1 \<noteq> 0x7f" and ff: "b1 \<noteq> 0xff"
  let ?c = "NOT b1"
  have c0: "?c \<noteq> 0" using ff by (rule not_nonzero)
  have ex: "push_bit 8 ?c = 0" by (rule push_bit_word_beyond) simp
  have shift: "\<And>m. push_bit (Suc m) ?c = push_bit m (push_bit 1 ?c)"
    by (simp add: push_bit_eq_mult)
  have "(LEAST n. push_bit n ?c = 0) = Suc (LEAST m. push_bit (Suc m) ?c = 0)"
  proof (rule Least_Suc [where P = "\<lambda>n. push_bit n (NOT b1) = 0" and n = 8])
    show "push_bit 8 (NOT b1) = 0" by (rule ex)
    show "\<not> push_bit 0 (NOT b1) = 0" using c0 by simp
  qed
  then have "(LEAST n. push_bit n (push_bit 1 ?c) = 0) < (LEAST n. push_bit n ?c = 0)"
    by (simp only: shift lessI)
  then show "((push_bit 1 b1 OR 1,
        if b1 AND 0x80 \<noteq> 0 then push_bit 1 b2 OR 1 else push_bit 1 b2), (b1, b2))
      \<in> measure (\<lambda>(b1, b2). LEAST n. push_bit n (NOT b1) = 0)"
    by (simp only: in_measure prod.case not_shift_fill)
qed

declare align.simps [simp del]
declare recv_start.simps [simp del]

text \<open>
  \<^verbatim>\<open>tpi_receive_byte\<close>. The sketch keeps \<^verbatim>\<open>b1\<close>, \<^verbatim>\<open>b2\<close>, \<^verbatim>\<open>b3\<close> in globals that nothing else
  reads; they are local here. The third transfer is made and its value is not used.
\<close>

definition tpi_receive_byte :: "state \<Rightarrow> (byte \<times> state) result" where
  "tpi_receive_byte s =
     bind (recv_start s) (\<lambda>(b1, s1).
       let (b2, s2) = SPI_transfer 0xff s1;
           s3 = (if 0x0f = (0x0f AND b1) then snd (SPI_transfer 0xff s2) else s2)
       in bind (align b1 b2) (\<lambda>b2'. Return (b2', s3)))"

subsection \<open>The frame on the wire\<close>

text \<open>
  Even parity: the parity bit is set when the number of set data bits is odd, so that the
  data bits and the parity bit together hold an even number of ones.
\<close>

definition parity :: "byte \<Rightarrow> bool" where
  "parity d = odd (length (filter (bit d) [0, 1, 2, 3, 4, 5, 6, 7]))"

text \<open>
  A TPI frame as the comment of \<^verbatim>\<open>tpi_send_byte\<close> gives it: one start bit (low), eight data
  bits from the least significant, the parity bit, two stop bits (high); the line idles high.
  \<open>wire n d\<close> is the line when \<open>n\<close> idle bits precede the frame of \<open>d\<close>, as a function of the
  bit time; \<open>spi_byte w j\<close> is what the \<open>j\<close>-th 8-bit transfer reads from line \<open>w\<close>: the SPI is
  set to \<^verbatim>\<open>LSBFIRST\<close>, so bit \<open>i\<close> of the byte is bit time \<open>8 * j + i\<close>.
\<close>

definition frame_bit :: "byte \<Rightarrow> nat \<Rightarrow> bool" where
  "frame_bit d u =
     (if u = 0 then False
      else if u \<le> 8 then bit d (u - 1)
      else if u = 9 then parity d
      else True)"

definition wire :: "nat \<Rightarrow> byte \<Rightarrow> nat \<Rightarrow> bool" where
  "wire n d t = (if t < n then True else frame_bit d (t - n))"

definition spi_byte :: "(nat \<Rightarrow> bool) \<Rightarrow> nat \<Rightarrow> byte" where
  "spi_byte w j = horner_sum of_bool 2 (map (\<lambda>i. w (8 * j + i)) [0..<8])"

lemma bit_spi_byte: "bit (spi_byte w j) i \<longleftrightarrow> i < 8 \<and> w (8 * j + i)"
  by (auto simp: spi_byte_def bit_horner_sum_bit_word_iff)

lemma parity_fold_xor:
  "bit (parity_fold d) 0 =
     (((bit d 0 \<noteq> bit d 4) \<noteq> (bit d 2 \<noteq> bit d 6)) \<noteq> ((bit d 1 \<noteq> bit d 5) \<noteq> (bit d 3 \<noteq> bit d 7)))"
  unfolding parity_fold_def Let_def
  by (simp only: bit_xor_iff bit_drop_bit_eq o_def) simp

lemma parity_xor:
  "parity d =
     (((bit d 0 \<noteq> bit d 4) \<noteq> (bit d 2 \<noteq> bit d 6)) \<noteq> ((bit d 1 \<noteq> bit d 5) \<noteq> (bit d 3 \<noteq> bit d 7)))"
  unfolding parity_def
  by (cases "bit d 0"; cases "bit d 1"; cases "bit d 2"; cases "bit d 3";
      cases "bit d 4"; cases "bit d 5"; cases "bit d 6"; cases "bit d 7") simp_all

lemma parity_fold_bit0: "bit (parity_fold d) 0 = parity d"
  by (simp only: parity_fold_xor parity_xor)

lemma x7f_mask: "(0x7f :: byte) = mask 7"
  by (simp add: mask_eq_exp_minus_1)

lemma b1_aligned:
  fixes b1 :: byte
  assumes "\<And>i. i < 7 \<Longrightarrow> bit b1 i" "\<not> bit b1 7"
  shows "b1 = 0x7f"
proof (rule bit_word_eqI)
  fix n assume "n < LENGTH(8)"
  then have n: "n < 8" by simp
  show "bit b1 n = bit (0x7f :: byte) n"
    using assms n by (cases "n = 7") (auto simp: x7f_mask bit_simps)
qed

lemma bit7_test: "(b1 AND 0x80 \<noteq> 0) = bit (b1 :: byte) 7"
  using and_exp_eq_0_iff_not_bit [of b1 7] by simp

lemma bit_fill:
  "bit (push_bit 1 b OR 1 :: byte) n \<longleftrightarrow> n < 8 \<and> (n = 0 \<or> bit b (n - 1))"
  apply (simp only: bit_simps)
  apply auto
  done

lemma bit_carry:
  fixes b1 b2 :: byte
  shows "bit (if b1 AND 0x80 \<noteq> 0 then push_bit 1 b2 OR 1 else push_bit 1 b2 :: byte) n
     \<longleftrightarrow> n < 8 \<and> (if n = 0 then bit b1 7 else bit b2 (n - 1))"
  apply (simp only: bit7_test)
  apply (cases "bit b1 7")
   apply (simp_all only: if_True if_False bit_simps)
   apply auto
  done

lemma align_closed:
  fixes b1 b2 :: byte
  assumes "k \<le> 7" "\<And>i. i < k \<Longrightarrow> bit b1 i" "\<not> bit b1 k"
  shows "align b1 b2 = Return (push_bit (7 - k) b2 OR drop_bit (Suc k) b1)"
  using assms
proof (induction "7 - k" arbitrary: k b1 b2)
  case 0
  then have k: "k = 7" by simp
  with 0 have "b1 = 0x7f" by (intro b1_aligned) auto
  then show ?case using k by (simp add: align.simps)
next
  case (Suc m)
  then have k: "k < 7" by simp
  have ne1: "b1 \<noteq> 0x7f"
  proof
    assume "b1 = 0x7f"
    then have "b1 = mask 7" by (simp add: mask_eq_exp_minus_1)
    then have "bit b1 k" using k by (simp add: bit_simps)
    with Suc.prems show False by simp
  qed
  have ne2: "b1 \<noteq> 0xff"
  proof
    assume "b1 = 0xff"
    then have "b1 = -1" by simp 
    then have "bit b1 k" using k by (simp add: bit_simps)
    with Suc.prems show False by simp
  qed
  let ?b1 = "push_bit 1 b1 OR 1"
  let ?b2 = "if b1 AND 0x80 \<noteq> 0 then push_bit 1 b2 OR 1 else push_bit 1 b2"
  have step: "align b1 b2 = align ?b1 ?b2"
    using ne1 ne2 by (subst align.simps) (simp only: if_False)
  note low = Suc.prems(2)
  have bits: "bit ?b1 i" if "i < Suc k" for i
  proof (cases i)
    case 0
    then show ?thesis by (simp only: bit_fill) simp
  next
    case (Suc j)
    with that have "j < k" by simp
    then have "bit b1 j" by (rule low)
    with Suc that k show ?thesis by (simp only: bit_fill) simp
  qed
  have zero: "\<not> bit ?b1 (Suc k)"
    using Suc.prems(3) k by (simp only: bit_fill) simp
  have m: "m = 7 - Suc k" using Suc.hyps(2) by simp
  have sk: "Suc k \<le> 7" using k by simp
  have "align ?b1 ?b2 = Return (push_bit (7 - Suc k) ?b2 OR drop_bit (Suc (Suc k)) ?b1)"
    by (rule Suc.hyps(1)[OF m sk bits zero])
  also have "push_bit (7 - Suc k) ?b2 OR drop_bit (Suc (Suc k)) ?b1
      = push_bit (7 - k) b2 OR drop_bit (Suc k) b1"
  proof (rule bit_word_eqI)
    fix n assume "n < LENGTH(8)"
    then have n: "n < 8" by simp
    show "bit (push_bit (7 - Suc k) ?b2 OR drop_bit (Suc (Suc k)) ?b1) n
        = bit (push_bit (7 - k) b2 OR drop_bit (Suc k) b1) n"
      using n k
      apply (simp only: bit_or_iff bit_push_bit_iff bit_drop_bit_eq bit_carry bit_fill possible_bit_word o_def)
      apply (cases "n = 6 - k")
      apply (auto simp: Suc_diff_Suc dest: bit_imp_le_length)
      done
  qed
  finally show ?case using step by simp
qed


lemma frame_layout: "tpi_frame d = [spi_byte (wire 2 d) 0, spi_byte (wire 2 d) 1]"
proof -
  have a: "0x03 OR push_bit 3 d = spi_byte (wire 2 d) 0"
  proof (rule bit_word_eqI)
    fix n assume "n < LENGTH(8)"
    then have n: "n < 8" by simp
    have m: "(3 :: byte) = mask 2" by (simp add: mask_eq_exp_minus_1)
    show "bit (0x03 OR push_bit 3 d) n = bit (spi_byte (wire 2 d) 0) n"
      using n by (auto simp: m bit_simps bit_spi_byte wire_def frame_bit_def)
  qed
  have b: "0xf0 OR push_bit 3 (parity_fold d) OR drop_bit 5 d = spi_byte (wire 2 d) 1"
  proof (rule bit_word_eqI)
    fix n assume "n < LENGTH(8)"
    then have n: "n < 8" by simp
    have m: "(0xf0 :: byte) = push_bit 4 (mask 4)" by (simp add: mask_eq_exp_minus_1)
    show "bit (0xf0 OR push_bit 3 (parity_fold d) OR drop_bit 5 d) n = bit (spi_byte (wire 2 d) 1) n"
      using n 
      apply (simp only: m bit_simps bit_spi_byte wire_def frame_bit_def)
      apply (auto simp: parity_fold_bit0 dest: bit_imp_le_length)
      done
  qed
  show ?thesis by (simp only: tpi_frame_def a b)
qed

lemma SPI_transfer_Cons:
  "miso s = r # rs \<Longrightarrow> SPI_transfer x s = (r, s\<lparr>miso := rs, mosi := mosi s @ [x]\<rparr>)"
  by (simp add: SPI_transfer_def)

lemma recv_start_skip:
  "miso s = replicate j 0xff @ b1 # r \<Longrightarrow> b1 \<noteq> 0xff \<Longrightarrow>
   recv_start s = Return (b1, s\<lparr>miso := r, mosi := mosi s @ replicate (Suc j) 0xff\<rparr>)"
proof (induction j arbitrary: s)
  case 0
  then show ?case by (subst recv_start.simps) (simp add: SPI_transfer_Cons)
next
  case (Suc j)
  let ?s = "s\<lparr>miso := replicate j 0xff @ b1 # r, mosi := mosi s @ [0xff]\<rparr>"
  have "recv_start s = recv_start ?s"
    using Suc.prems by (subst recv_start.simps) (simp add: SPI_transfer_Cons)
  also have "\<dots> = Return (b1, ?s\<lparr>miso := r, mosi := mosi ?s @ replicate (Suc j) 0xff\<rparr>)"
    using Suc.prems by (intro Suc.IH) simp_all
  finally show ?case by (simp add: replicate_app_Cons_same)
qed

lemma decode_wire:
  assumes "k < 8"
  shows "push_bit (7 - k) (spi_byte (wire (8 * q + k) d) (Suc q))
           OR drop_bit (Suc k) (spi_byte (wire (8 * q + k) d) q) = d"
proof (rule bit_word_eqI)
  fix n assume "n < LENGTH(8)"
  then have n: "n < 8" by simp
  show "bit (push_bit (7 - k) (spi_byte (wire (8 * q + k) d) (Suc q))
           OR drop_bit (Suc k) (spi_byte (wire (8 * q + k) d) q)) n = bit d n"
  proof (cases "n < 7 - k")
    case True
    then have "k + n < 7" by simp
    with True n assms show ?thesis
      by (simp add: bit_or_iff bit_push_bit_iff bit_drop_bit_eq bit_spi_byte wire_def frame_bit_def)
  next
    case False
    with n assms have e: "8 * Suc q + (n - (7 - k)) - (8 * q + k) = Suc n" by simp
    from False n assms show ?thesis
      by (auto simp: bit_or_iff bit_push_bit_iff bit_drop_bit_eq bit_spi_byte wire_def frame_bit_def e)
  qed
qed

lemma wire_first:
  assumes "k < 8"
  shows "\<not> bit (spi_byte (wire (8 * q + k) d) q) k"
    and "\<And>i. i < k \<Longrightarrow> bit (spi_byte (wire (8 * q + k) d) q) i"
  using assms by (simp_all add: bit_spi_byte wire_def frame_bit_def)

lemma wire_idle:
  assumes "j < q"
  shows "spi_byte (wire (8 * q + k) d) j = 0xff"
proof -
  have "spi_byte (wire (8 * q + k) d) j = -1"
  proof (rule bit_word_eqI)
    fix n assume "n < LENGTH(8)"
    then have n: "n < 8" by simp
    from assms have "8 * j + 8 \<le> 8 * q" by simp
    with n have "8 * j + n < 8 * q + k" by simp
    with n show "bit (spi_byte (wire (8 * q + k) d) j) n = bit (- 1 :: byte) n"
      by (simp add: bit_spi_byte wire_def)
  qed
  then show ?thesis by simp
qed

lemma not_ff: "\<not> bit (b :: byte) k \<Longrightarrow> k < 8 \<Longrightarrow> b \<noteq> 0xff"
proof
  assume a: "\<not> bit b k" "k < 8" and "b = 0xff"
  then have "b = -1" by simp
  then have "bit b k" using a(2) by (simp only: bit_simps) simp
  with a show False by simp
qed

lemma wire_miso:
  assumes "k < 8" "q + 2 \<le> m"
  shows "map (spi_byte (wire (8 * q + k) d)) [0..<m] =
         replicate q 0xff @ spi_byte (wire (8 * q + k) d) q
           # spi_byte (wire (8 * q + k) d) (Suc q) # map (spi_byte (wire (8 * q + k) d)) [Suc (Suc q)..<m]"
proof -
  have "[0..<m] = [0..<q] @ [q..<m]"
    using assms(2) upt_add_eq_append [of 0 q "m - q"] by simp
  moreover have "[q..<m] = q # [Suc q..<m]"
    using assms(2) by (simp add: upt_conv_Cons)
  moreover have "[Suc q..<m] = Suc q # [Suc (Suc q)..<m]"
    using assms(2) by (simp add: upt_conv_Cons)
  ultimately have split: "[0..<m] = [0..<q] @ q # Suc q # [Suc (Suc q)..<m]"
    by simp
  have idle: "map (spi_byte (wire (8 * q + k) d)) [0..<q] = replicate q 0xff"
    by (rule nth_equalityI) (simp_all add: wire_idle)
  show ?thesis by (subst split) (simp add: idle)
qed

lemma recv_wire:
  assumes "miso s = map (spi_byte (wire n d)) [0..<m]" "n div 8 + 2 \<le> m"
  shows "\<exists>s'. tpi_receive_byte s = Return (d, s')"
proof -
  define q k where "q = n div 8" and "k = n mod 8"
  then have n: "n = 8 * q + k" and k: "k < 8" by simp_all
  let ?b1 = "spi_byte (wire (8 * q + k) d) q" and ?b2 = "spi_byte (wire (8 * q + k) d) (Suc q)"
  let ?r = "map (spi_byte (wire (8 * q + k) d)) [Suc (Suc q)..<m]"
  have qm: "q + 2 \<le> m" using assms(2) by (simp only: q_def)
  have "miso s = map (spi_byte (wire (8 * q + k) d)) [0..<m]"
    using assms(1) by (simp only: n)
  then have m: "miso s = replicate q 0xff @ ?b1 # ?b2 # ?r"
    by (simp only: wire_miso[OF k qm])
  have ne: "?b1 \<noteq> 0xff"
    using wire_first(1)[OF k] k by (rule not_ff)
  have al: "align ?b1 ?b2 = Return d"
    using align_closed[of k ?b1 ?b2] wire_first[OF k] k decode_wire[OF k] by simp
  show ?thesis
    unfolding tpi_receive_byte_def
    by (simp add: recv_start_skip[OF m ne] bind_def SPI_transfer_Cons al Let_def split: prod.splits)
qed

lemma recv_frame:
  assumes "miso s = tpi_frame d @ r"
  shows "tpi_receive_byte s = Return (d, s\<lparr>miso := r, mosi := mosi s @ [0xff, 0xff]\<rparr>)"
proof -
  let ?b1 = "spi_byte (wire 2 d) 0" and ?b2 = "spi_byte (wire 2 d) (Suc 0)"
  have m: "miso s = replicate 0 0xff @ ?b1 # ?b2 # r"
    using assms by (simp add: frame_layout)
  have b1: "\<not> bit ?b1 2" "\<And>i. i < 2 \<Longrightarrow> bit ?b1 i"
    by (simp_all add: bit_spi_byte wire_def frame_bit_def)
  have ne: "?b1 \<noteq> 0xff"
  proof
    assume "?b1 = 0xff"
    then have "?b1 = -1" by simp
    then have "bit ?b1 2" by (simp only: bit_simps) simp
    with b1 show False by simp
  qed
  have nib: "0x0f AND ?b1 \<noteq> 0x0f"
  proof
    assume "0x0f AND ?b1 = 0x0f"
    then have "bit (0x0f AND ?b1) 2 = bit (mask 4 :: byte) 2" by (simp add: mask_eq_exp_minus_1)
    then show False using b1 by (simp only: bit_simps) simp
  qed
  have "8 * 0 + 2 = (2::nat)" by simp
  note dec = decode_wire[of 2 0 d, unfolded this]
  have al: "align ?b1 ?b2 = Return d"
    using align_closed[of 2 ?b1 ?b2] b1 dec by simp
  show ?thesis
    unfolding tpi_receive_byte_def
    by (simp add: recv_start_skip[OF m ne] bind_def SPI_transfer_Cons nib al)
qed


text \<open>The state after \<^verbatim>\<open>setup()\<close> has assigned the globals, with silent peripherals.\<close>

definition init :: state where
  "init = \<lparr>adrs = 0, data = replicate 16 0, progSize = 0, currentByte = 0, startTime = 0,
            timeout = 20000, type = 0, serial = [], clock = 0, miso = [], mosi = []\<rparr>"

lemma mosi_transfer: "mosi (snd (SPI_transfer x s)) = mosi s @ [x]"
  by (simp add: SPI_transfer_def split: list.splits)

lemma mosi_send: "mosi (tpi_send_byte d s) = mosi s @ tpi_frame d"
  by (simp add: tpi_send_byte_def Let_def mosi_transfer tpi_frame_def)


section \<open>Register access layer\<close>

definition SLD :: byte where "SLD = 0x20"
definition SLDp :: byte where "SLDp = 0x24"
definition SST :: byte where "SST = 0x60"
definition SSTp :: byte where "SSTp = 0x64"
definition SSTPRH :: byte where "SSTPRH = 0x69"
definition SSTPRL :: byte where "SSTPRL = 0x68"
definition SKEY :: byte where "SKEY = 0xE0"
definition NVM_PROGRAM_ENABLE :: "64 word" where "NVM_PROGRAM_ENABLE = 0x1289AB45CDD888FF"
definition NVMCMD :: byte where "NVMCMD = 0x33"
definition NVMCSR :: byte where "NVMCSR = 0x32"
definition NVM_NOP :: byte where "NVM_NOP = 0x00"
definition NVM_CHIP_ERASE :: byte where "NVM_CHIP_ERASE = 0x10"
definition NVM_SECTION_ERASE :: byte where "NVM_SECTION_ERASE = 0x14"
definition NVM_WORD_WRITE :: byte where "NVM_WORD_WRITE = 0x1D"

definition Tiny4_5 :: nat where "Tiny4_5 = 10"
definition Tiny9 :: nat where "Tiny9 = 1"
definition Tiny10 :: nat where "Tiny10 = 1"
definition Tiny20 :: nat where "Tiny20 = 2"
definition Tiny40 :: nat where "Tiny40 = 4"
definition Tiny102 :: nat where "Tiny102 = 1"
definition Tiny104 :: nat where "Tiny104 = 1"

function skey_loop :: "64 word \<Rightarrow> state \<Rightarrow> state" where
  "skey_loop nvm_key s =
     (if nvm_key = 0 then s
      else skey_loop (drop_bit 8 nvm_key) (tpi_send_byte (ucast (nvm_key AND 0xFF)) s))"
  by pat_completeness auto
termination
proof (relation "measure (\<lambda>(k, s). unat k)")
  show "wf (measure (\<lambda>(k, s). unat k))" by simp
next
  fix nvm_key :: "64 word" and s :: state
  assume "nvm_key \<noteq> 0"
  then have "unat nvm_key \<noteq> 0" by (simp add: unat_eq_0)
  then have "unat nvm_key div 2 ^ 8 < unat nvm_key" by simp
  then show "((drop_bit 8 nvm_key, tpi_send_byte (ucast (nvm_key AND 0xFF)) s), nvm_key, s)
      \<in> measure (\<lambda>(k, s). unat k)"
    by (simp add: drop_bit_eq_div unat_div)
qed

declare skey_loop.simps [simp del]

definition send_skey :: "64 word \<Rightarrow> state \<Rightarrow> state" where
  "send_skey nvm_key s = skey_loop nvm_key (tpi_send_byte SKEY s)"

definition key_bytes :: "64 word \<Rightarrow> byte list" where
  "key_bytes k = map (\<lambda>i. ucast (drop_bit (8 * i) k)) [0..<8]"

lemma send_state: "tpi_send_byte d s = s\<lparr>miso := drop 2 (miso s), mosi := mosi s @ tpi_frame d\<rparr>"
  by (cases "miso s"; cases "tl (miso s)")
     (auto simp: tpi_send_byte_def Let_def SPI_transfer_def tpi_frame_def)

definition send_all :: "byte list \<Rightarrow> state \<Rightarrow> state" where
  "send_all ds s = foldl (\<lambda>s d. tpi_send_byte d s) s ds"

lemma ucast_low_byte: "ucast (k AND 0xFF :: 64 word) = (ucast k :: byte)"
proof (rule bit_word_eqI)
  fix n assume "n < LENGTH(8)"
  then have n: "n < 8" by simp
  have m: "(0xFF :: 64 word) = mask 8" by (simp add: mask_eq_exp_minus_1)
  show "bit (ucast (k AND 0xFF) :: byte) n = bit (ucast k :: byte) n"
    using n by (simp add: m bit_simps)
qed

lemma send_all_snoc: "send_all (ds @ [d]) s = tpi_send_byte d (send_all ds s)"
  by (simp add: send_all_def)

lemma skey_step:
  "k \<noteq> 0 \<Longrightarrow> skey_loop k s = skey_loop (drop_bit 8 k) (tpi_send_byte (ucast k) s)"
  by (subst skey_loop.simps) (simp add: ucast_low_byte)

lemma skey_loop_unroll:
  "drop_bit (8 * n) k \<noteq> 0 \<Longrightarrow>
   skey_loop k s = skey_loop (drop_bit (8 * Suc n) k)
     (send_all (map (\<lambda>i. ucast (drop_bit (8 * i) k)) [0..<Suc n]) s)"
proof (induction n arbitrary: s)
  case 0
  then have "k \<noteq> 0" by simp
  then show ?case
    by (simp add: skey_step send_all_def)
next
  case (Suc n)
  let ?f = "\<lambda>i. ucast (drop_bit (8 * i) k) :: byte"
  let ?k = "drop_bit (8 * Suc n) k"
  have d: "drop_bit 8 (drop_bit (8 * n) k) = ?k" by (simp add: drop_bit_drop_bit)
  have "drop_bit (8 * n) k \<noteq> 0"
  proof
    assume "drop_bit (8 * n) k = 0"
    then have "drop_bit 8 (drop_bit (8 * n) k) = 0" by simp
    with d Suc.prems show False by simp
  qed
  then have "skey_loop k s = skey_loop ?k (send_all (map ?f [0..<Suc n]) s)"
    by (rule Suc.IH)
  also have "\<dots> = skey_loop (drop_bit 8 ?k) (tpi_send_byte (ucast ?k) (send_all (map ?f [0..<Suc n]) s))"
    using Suc.prems by (rule skey_step)
  also have "drop_bit 8 ?k = drop_bit (8 * Suc (Suc n)) k" by (simp add: drop_bit_drop_bit)
  also have "tpi_send_byte (ucast ?k) (send_all (map ?f [0..<Suc n]) s)
      = send_all (map ?f [0..<Suc (Suc n)]) s"
    by (simp add: send_all_snoc [symmetric])
  finally show ?case .
qed

lemma send_skey_full:
  assumes "drop_bit 56 key \<noteq> 0"
  shows "send_skey key s = send_all (SKEY # key_bytes key) s"
proof -
  have "skey_loop key (tpi_send_byte SKEY s)
      = skey_loop (drop_bit (8 * Suc 7) key)
          (send_all (map (\<lambda>i. ucast (drop_bit (8 * i) key)) [0..<Suc 7]) (tpi_send_byte SKEY s))"
    using assms by (intro skey_loop_unroll) simp
  moreover have "drop_bit (8 * Suc 7) key = 0" by (rule drop_bit_word_beyond) simp
  ultimately show ?thesis
    by (simp add: send_skey_def key_bytes_def send_all_def skey_loop.simps [of 0])
qed

lemma mosi_send_all: "mosi (send_all ds s) = mosi s @ concat (map tpi_frame ds)"
  by (induction ds arbitrary: s rule: rev_induct) (simp_all add: send_all_def mosi_send)

definition idle2 :: "state \<Rightarrow> state" where
  "idle2 s = snd (SPI_transfer 0xff (snd (SPI_transfer 0xff s)))"

definition setPointer :: "16 word \<Rightarrow> state \<Rightarrow> state" where
  "setPointer address s =
     (let s0 = s\<lparr>adrs := address\<rparr>;
          s1 = tpi_send_byte SSTPRL s0;
          s2 = tpi_send_byte (ucast (address AND 0xff)) s1;
          s3 = tpi_send_byte SSTPRH s2
      in tpi_send_byte (ucast (drop_bit 8 address AND 0xff)) s3)"

definition writeIO :: "byte \<Rightarrow> byte \<Rightarrow> state \<Rightarrow> state" where
  "writeIO address v s =
     tpi_send_byte v
       (tpi_send_byte (0x90 OR (address AND 0x0F) OR push_bit 1 (address AND 0x30)) s)"

definition readIO :: "byte \<Rightarrow> state \<Rightarrow> (byte \<times> state) result" where
  "readIO address s =
     tpi_receive_byte
       (tpi_send_byte (0x10 OR (address AND 0x0F) OR push_bit 1 (address AND 0x30)) s)"

definition writeCSS :: "byte \<Rightarrow> byte \<Rightarrow> state \<Rightarrow> state" where
  "writeCSS address v s = tpi_send_byte v (tpi_send_byte (0xC0 OR address) s)"

definition readCSS :: "byte \<Rightarrow> state \<Rightarrow> (byte \<times> state) result" where
  "readCSS address s = tpi_receive_byte (tpi_send_byte (0x80 OR address) s)"

lemma miso_transfer: "length (miso (snd (SPI_transfer x s))) \<le> length (miso s)"
  by (simp add: SPI_transfer_def split: list.splits)

lemma miso_send: "length (miso (tpi_send_byte d s)) \<le> length (miso s)"
  by (simp add: send_state)

lemma recv_start_Nil: "miso s = [] \<Longrightarrow> recv_start s = Diverges"
  by (subst recv_start.simps) simp

lemma recv_start_idle:
  "miso s = 0xff # rs \<Longrightarrow> recv_start s = recv_start (s\<lparr>miso := rs, mosi := mosi s @ [0xff]\<rparr>)"
  by (subst recv_start.simps) (simp add: SPI_transfer_def)

lemma recv_start_hit:
  "miso s = r # rs \<Longrightarrow> r \<noteq> 0xff \<Longrightarrow>
   recv_start s = Return (r, s\<lparr>miso := rs, mosi := mosi s @ [0xff]\<rparr>)"
  by (subst recv_start.simps) (simp add: SPI_transfer_def)

lemma recv_start_consumes:
  "recv_start s = Return (b1, s') \<Longrightarrow> length (miso s') < length (miso s)"
proof (induction "miso s" arbitrary: s)
  case Nil
  then show ?case by (simp add: recv_start_Nil)
next
  case (Cons r rs)
  let ?s = "s\<lparr>miso := rs, mosi := mosi s @ [0xff]\<rparr>"
  from Cons(2) have m: "miso s = r # rs" by simp
  show ?case
  proof (cases "r = 0xff")
    case True
    with m Cons(3) have "recv_start ?s = Return (b1, s')"
      by (simp add: recv_start_idle)
    moreover have "rs = miso ?s" by simp
    ultimately have "length (miso s') < length (miso ?s)" by (rule Cons(1) [rotated])
    then show ?thesis using m by simp
  next
    case False
    with m Cons(3) have "s' = ?s" by (simp add: recv_start_hit)
    then show ?thesis using m by simp
  qed
qed

lemma bind_Return:
  "bind m f = Return y \<Longrightarrow> \<exists>x. m = Return x \<and> f x = Return y"
  by (cases m) (simp_all add: bind_def)

lemma receive_consumes:
  assumes "tpi_receive_byte s = Return (v, s')"
  shows "length (miso s') < length (miso s)"
proof -
  from assms obtain x where x: "recv_start s = Return x"
    and f: "(case x of (b1, s1) \<Rightarrow>
       let (b2, s2) = SPI_transfer 0xff s1;
           s3 = (if 0x0f = (0x0f AND b1) then snd (SPI_transfer 0xff s2) else s2)
       in bind (align b1 b2) (\<lambda>b2'. Return (b2', s3))) = Return (v, s')"
    unfolding tpi_receive_byte_def by (blast dest: bind_Return)
  obtain b1 s1 where xs: "x = (b1, s1)" by (cases x)
  obtain b2 s2 where t: "SPI_transfer 0xff s1 = (b2, s2)" by (cases "SPI_transfer 0xff s1")
  let ?s3 = "if 0x0f = (0x0f AND b1) then snd (SPI_transfer 0xff s2) else s2"
  from f xs t have "bind (align b1 b2) (\<lambda>b2'. Return (b2', ?s3)) = Return (v, s')"
    by (simp add: Let_def)
  then have "s' = ?s3" by (auto dest!: bind_Return)
  moreover have "length (miso s2) \<le> length (miso s1)"
    using miso_transfer [of "0xff" s1] t by simp
  moreover have "length (miso ?s3) \<le> length (miso s2)"
    using miso_transfer [of "0xff" s2] by simp
  moreover have "length (miso s1) < length (miso s)"
    using x xs by (auto dest: recv_start_consumes)
  ultimately show ?thesis by simp
qed

lemma readIO_consumes:
  assumes "readIO a s = Return (v, s')"
  shows "length (miso s') < length (miso s)"
proof -
  let ?s = "tpi_send_byte (0x10 OR (a AND 0x0F) OR push_bit 1 (a AND 0x30)) s"
  from assms have "length (miso s') < length (miso ?s)"
    unfolding readIO_def by (rule receive_consumes)
  also have "length (miso ?s) \<le> length (miso s)" by (rule miso_send)
  finally show ?thesis .
qed

function nvm_wait :: "state \<Rightarrow> state result" where
  "nvm_wait s =
     (case readIO NVMCSR s of
        Diverges \<Rightarrow> Diverges
      | Abort e s' \<Rightarrow> Abort e s'
      | Return (v, s') \<Rightarrow> if v AND 0x80 \<noteq> 0 then nvm_wait s' else Return s')"
  by pat_completeness auto
termination
proof (relation "measure (\<lambda>s. length (miso s))")
  show "wf (measure (\<lambda>s. length (miso s)))" by simp
next
  fix s :: state and x2 :: "byte \<times> state" and x y
  assume "readIO NVMCSR s = Return x2" and "(x, y) = x2"
  then have "readIO NVMCSR s = Return (x, y)" by simp
  then show "(y, s) \<in> measure (\<lambda>s. length (miso s))"
    by (simp add: readIO_consumes)
qed

declare nvm_wait.simps [simp del]

definition eraseChip :: "state \<Rightarrow> state result" where
  "eraseChip s =
     (let s1 = setPointer 0x4001 s;
          s2 = writeIO NVMCMD NVM_CHIP_ERASE s1;
          s3 = tpi_send_byte 0xAA (tpi_send_byte SSTp s2);
          s4 = tpi_send_byte 0xAA (tpi_send_byte SSTp s3);
          s5 = tpi_send_byte 0xAA (tpi_send_byte SSTp s4);
          s6 = tpi_send_byte 0xAA (tpi_send_byte SSTp s5)
      in nvm_wait s6)"


section \<open>Serial input and the HEX field decoder\<close>

text \<open>
  The serial line is a list of slots: \<open>Some c\<close> is a character in the receive buffer, \<open>None\<close>
  is one millisecond in which nothing arrives, and after the last slot nothing arrives any
  more. \<^verbatim>\<open>Serial.available() < 1\<close> holds unless the first slot is a character; a poll that
  finds no character lets one millisecond pass (\<open>tick\<close>).
\<close>

definition available :: "state \<Rightarrow> bool" where
  "available s = (case serial s of Some c # xs \<Rightarrow> True | _ \<Rightarrow> False)"

definition tick :: "state \<Rightarrow> state" where
  "tick s = s\<lparr>serial := (case serial s of None # xs \<Rightarrow> xs | xs \<Rightarrow> xs), clock := Suc (clock s)\<rparr>"

definition Serial_read :: "state \<Rightarrow> byte \<times> state" where
  "Serial_read s = (case serial s of Some c # xs \<Rightarrow> (c, s\<lparr>serial := xs\<rparr>) | _ \<Rightarrow> (0xff, s))"

text \<open>
  \<^verbatim>\<open>char Sread(void){ while(Serial.available()<1){} return Serial.read(); }\<close>
  The loop has no exit but a character: on a line that has fallen silent for good it does not
  return.
\<close>

function Sread :: "state \<Rightarrow> (byte \<times> state) result" where
  "Sread s =
     (if available s then Return (Serial_read s)
      else if serial s = [] then Diverges
      else Sread (tick s))"
  by pat_completeness auto
termination
  by (relation "measure (\<lambda>s. length (serial s))")
     (auto simp: tick_def available_def split: list.splits option.splits)

text \<open>
  \<^verbatim>\<open>while(Serial.available() < 1){ if(millis()-startTime > timeout){ ERROR_data(TimeOut); return false; } }\<close>
  The three guarded waits of \<^verbatim>\<open>writeProgram\<close> have this form.
\<close>

function wait_serial :: "state \<Rightarrow> state result" where
  "wait_serial s =
     (if available s then Return s
      else if clock s - startTime s > timeout s then Abort TimeOut s
      else wait_serial (tick s))"
  by pat_completeness auto
termination
  by (relation "measure (\<lambda>s. length (serial s) + (Suc (timeout s + startTime s) - clock s))")
     (auto simp: tick_def available_def split: list.splits option.splits)

declare Sread.simps [simp del]
declare wait_serial.simps [simp del]

text \<open>
  \<^verbatim>\<open>asciiHexToUShort\<close>: each character of the buffer up to the first NUL is replaced by its
  digit value (\<open>0\<close>-\<open>9\<close> and \<open>A\<close>-\<open>F\<close>; any other character keeps its code) and
  shifted into the 16-bit result as a signed \<^verbatim>\<open>char\<close>. \<open>hex2\<close> is the call on the
  two-character buffer \<^verbatim>\<open>temp\<close>, assigned to an 8-bit variable.
\<close>

definition hex_digit :: "byte \<Rightarrow> byte" where
  "hex_digit c =
     (if 0x30 \<le> c \<and> c \<le> 0x39 then c - 0x30 + 0x0
      else if 0x41 \<le> c \<and> c \<le> 0x46 then c - 0x41 + 0xA
      else c)"

fun hex_loop :: "16 word \<Rightarrow> byte \<Rightarrow> byte list \<Rightarrow> 16 word \<times> byte list" where
  "hex_loop result c cs =
     (let d = hex_digit c;
          r = push_bit 4 result + scast d
      in case cs of
           [] \<Rightarrow> (r, [d])
         | c' # cs' \<Rightarrow>
             if c' = 0 then (r, d # c' # cs')
             else (let (r', buf) = hex_loop r c' cs' in (r', d # buf)))"

declare hex_loop.simps [simp del]

definition asciiHexToUShort :: "byte \<Rightarrow> byte list \<Rightarrow> 16 word \<times> byte list" where
  "asciiHexToUShort c cs = hex_loop 0 c cs"

definition hex2 :: "byte \<Rightarrow> byte \<Rightarrow> byte" where
  "hex2 c0 c1 = ucast (fst (asciiHexToUShort c0 [c1]))"


section \<open>The HEX stream loader\<close>

text \<open>
  \<^verbatim>\<open>char words = (type!=Tiny4_5?type:1);\<close> and the limit in
  \<^verbatim>\<open>if(progSize > (type!=Tiny4_5?type*1024:512))\<close>.
\<close>

definition words_of :: "nat \<Rightarrow> nat" where
  "words_of t = (if t \<noteq> Tiny4_5 then t else 1)"

definition capacity :: "nat \<Rightarrow> nat" where
  "capacity t = (if t \<noteq> Tiny4_5 then t * 1024 else 512)"

text \<open>
  \<^verbatim>\<open>temp[0] = Sread(); temp[1] = Sread();\<close>
\<close>

definition read_field :: "state \<Rightarrow> (byte \<times> byte \<times> state) result" where
  "read_field s =
     bind (Sread s) (\<lambda>(c0, s1).
     bind (Sread s1) (\<lambda>(c1, s2).
     Return (c0, c1, s2)))"

text \<open>
  The body of \<^verbatim>\<open>if( currentByte == 2 * words )\<close>: the loop
  \<^verbatim>\<open>for(int i = 0; i<2 * words; i+=2)\<close> that stores the words (\<open>write_words\<close>), the loop
  \<^verbatim>\<open>for (int c = 0; c < 2 * words; c++)\<close> that reads them back (\<open>verify\<close>, which ends the
  load with the \<^verbatim>\<open>program error:\<close> report at the first difference), and the whole block
  (\<open>flush\<close>). \<open>pad\<close> is \<^verbatim>\<open>while(currentByte < 2 * words){ data[currentByte] = 0; currentByte++; }\<close>.
\<close>

function write_words :: "nat \<Rightarrow> nat \<Rightarrow> state \<Rightarrow> state" where
  "write_words i n s =
     (if i < n then
        (let s1 = tpi_send_byte SSTp s;
             s2 = tpi_send_byte (data s1 ! i) s1;
             s3 = tpi_send_byte SSTp s2;
             s4 = tpi_send_byte (data s3 ! (i + 1)) s3
         in write_words (i + 2) n (idle2 s4))
      else s)"
  by pat_completeness auto
termination
  by (relation "measure (\<lambda>(i, n, s). n - i)") auto

declare write_words.simps [simp del]

fun verify :: "nat \<Rightarrow> nat \<Rightarrow> state \<Rightarrow> state result" where
  "verify 0 c s = Return s"
| "verify (Suc k) c s =
     bind (tpi_receive_byte (tpi_send_byte SLDp s)) (\<lambda>(b, s').
       if b \<noteq> data s' ! c then Abort (ProgramError (adrs s') (data s' ! c) b) s'
       else verify k (Suc c) s')"

function pad :: "nat \<Rightarrow> state \<Rightarrow> state" where
  "pad n s =
     (if currentByte s < n
      then pad n (s\<lparr>data := (data s)[currentByte s := 0], currentByte := Suc (currentByte s)\<rparr>)
      else s)"
  by pat_completeness auto
termination
  by (relation "measure (\<lambda>(n, s). n - currentByte s)") auto

declare pad.simps [simp del]

definition flush :: "nat \<Rightarrow> state \<Rightarrow> state result" where
  "flush words s =
     (let s1 = s\<lparr>currentByte := 0\<rparr>;
          s2 = setPointer (adrs s1) s1;
          s3 = writeIO NVMCMD NVM_WORD_WRITE s2;
          s4 = write_words 0 (2 * words) s3
      in bind (nvm_wait s4) (\<lambda>s5.
           let s6 = idle2 (writeIO NVMCMD NVM_NOP s5);
               s7 = setPointer (adrs s6) s6
           in bind (verify (2 * words) 0 s7) (\<lambda>s8.
                Return (s8\<lparr>adrs := adrs s8 + of_nat (2 * words)\<rparr>))))"

text \<open>
  One pass of \<^verbatim>\<open>for(int k=0; k<linelength; k++)\<close>: the guarded wait and the two characters
  (\<open>data_byte\<close>), then, with the decoded value \<open>v\<close> (\<open>store_byte\<close>),
  \<^verbatim>\<open>data[currentByte] = v; checkSum += data[currentByte]; currentByte++; progSize++;\<close>
  the test of the limit, the padding \<^verbatim>\<open>if(fileEnd)\<close> and the flush of a full group.
\<close>

definition store_byte :: "nat \<Rightarrow> bool \<Rightarrow> byte \<Rightarrow> byte \<Rightarrow> state \<Rightarrow> (byte \<times> state) result" where
  "store_byte words fileEnd checkSum v s =
     (let s1 = s\<lparr>data := (data s)[currentByte s := v]\<rparr>;
          checkSum' = checkSum + v;
          s2 = s1\<lparr>currentByte := Suc (currentByte s1), progSize := Suc (progSize s1)\<rparr>
      in if progSize s2 > capacity (type s2) then Abort TooLarge s2
         else (let s3 = (if fileEnd then pad (2 * words) s2 else s2)
               in if currentByte s3 = 2 * words
                  then bind (flush words s3) (\<lambda>s4. Return (checkSum', s4))
                  else Return (checkSum', s3)))"

definition data_byte :: "nat \<Rightarrow> bool \<Rightarrow> byte \<Rightarrow> state \<Rightarrow> (byte \<times> state) result" where
  "data_byte words fileEnd checkSum s =
     bind (wait_serial s) (\<lambda>s1.
     bind (read_field s1) (\<lambda>(c0, c1, s2).
     store_byte words fileEnd checkSum (hex2 c0 c1) s2))"

fun data_loop :: "nat \<Rightarrow> bool \<Rightarrow> nat \<Rightarrow> byte \<Rightarrow> state \<Rightarrow> (byte \<times> state) result" where
  "data_loop words fileEnd 0 checkSum s = Return (checkSum, s)"
| "data_loop words fileEnd (Suc n) checkSum s =
     bind (data_byte words fileEnd checkSum s) (\<lambda>(checkSum', s').
       data_loop words fileEnd n checkSum' s')"

text \<open>
  \<^verbatim>\<open>for (int i = 0; i<=linelength; i++){ temp[0] = Sread(); temp[1] = Sread(); checkSum += asciiHexToUShort(temp); }\<close>
  called with \<open>linelength + 1\<close> passes.
\<close>

fun skip_loop :: "nat \<Rightarrow> byte \<Rightarrow> state \<Rightarrow> (byte \<times> state) result" where
  "skip_loop 0 checkSum s = Return (checkSum, s)"
| "skip_loop (Suc n) checkSum s =
     bind (read_field s) (\<lambda>(c0, c1, s').
       skip_loop n (checkSum + hex2 c0 c1) s')"

text \<open>
  The instructions \<^verbatim>\<open>com\<close> and \<^verbatim>\<open>inc\<close> on the 8-bit register that holds \<^verbatim>\<open>checkSum\<close>.
\<close>

definition com_inc :: "byte \<Rightarrow> byte" where
  "com_inc v = NOT v + 1"

text \<open>
  Lines 648 to 675: \<^verbatim>\<open>startTime = millis();\<close>, the guarded wait, the two characters of the
  checksum field, \<^verbatim>\<open>com\<close> and \<^verbatim>\<open>inc\<close>, and \<^verbatim>\<open>if (checkSum != someth)\<close>.
\<close>

definition check_tail :: "bool \<Rightarrow> byte \<Rightarrow> state \<Rightarrow> (bool \<times> state) result" where
  "check_tail fileEnd checkSum s =
     bind (wait_serial (s\<lparr>startTime := clock s\<rparr>)) (\<lambda>s1.
     bind (read_field s1) (\<lambda>(c0, c1, s2).
       let checkSum' = com_inc checkSum;
           someth = hex2 c0 c1
       in if checkSum' \<noteq> someth then Abort Checksum s2
          else Return (fileEnd, s2)))"

text \<open>
  \<^verbatim>\<open>if(Sread() != ':'){ if(Sread() != ':'){ ERROR_data(HexError); return false; } }\<close>
\<close>

definition colon :: "state \<Rightarrow> state result" where
  "colon s =
     bind (Sread s) (\<lambda>(c, s1).
       if c \<noteq> 0x3A
       then bind (Sread s1) (\<lambda>(c', s2). if c' \<noteq> 0x3A then Abort HexError s2 else Return s2)
       else Return s1)"

text \<open>
  The length, the two address bytes and the type, each added to \<^verbatim>\<open>checkSum\<close>;
  \<^verbatim>\<open>adrs = asciiHexToUShort(addr) + 0x4000; if(linelength != 0x00 && adrs == 0x4000) currentByte = 0;\<close>
\<close>

definition read_header :: "state \<Rightarrow> (byte \<times> byte \<times> byte \<times> state) result" where
  "read_header s =
     bind (read_field s) (\<lambda>(t0, t1, s1).
     bind (read_field s1) (\<lambda>(a0, a1, s2).
     bind (read_field s2) (\<lambda>(a2, a3, s3).
       let linelength = hex2 t0 t1;
           checkSum = linelength + hex2 a0 a1 + hex2 a2 a3;
           s4 = s3\<lparr>adrs := fst (asciiHexToUShort a0 [a1, a2, a3]) + 0x4000\<rparr>;
           s5 = (if linelength \<noteq> 0x00 \<and> adrs s4 = 0x4000 then s4\<lparr>currentByte := 0\<rparr> else s4)
       in
     bind (read_field s5) (\<lambda>(y0, y1, s6).
       let someth = hex2 y0 y1
       in Return (linelength, someth, checkSum + someth, s6)))))"

text \<open>
  The rest of one pass of \<^verbatim>\<open>while(!fileEnd)\<close>:
  \<^verbatim>\<open>if(someth == 1){ fileEnd = true; } if(someth == 2){ (skip loop) } else { (data loop) (checksum field) }\<close>
  The brace of the \<^verbatim>\<open>else\<close> opens before the data loop and closes after the comparison of
  the checksum, at the end of the body of the \<^verbatim>\<open>while\<close>. So the checksum field is read and
  compared in the \<^verbatim>\<open>else\<close> branch only; after the skip loop of a record of type 2 the pass
  is over.
\<close>

definition record_body :: "nat \<Rightarrow> state \<Rightarrow> (bool \<times> state) result" where
  "record_body words s =
     bind (read_header s) (\<lambda>(linelength, someth, checkSum, s1).
       let fileEnd = (someth = 1)
       in
       if someth = 2
       then bind (skip_loop (Suc (unat linelength)) checkSum s1) (\<lambda>(checkSum', s2).
              Return (fileEnd, s2))
       else bind (data_loop words fileEnd (unat linelength) checkSum s1) (\<lambda>(checkSum', s2).
              check_tail fileEnd checkSum' s2))"

text \<open>
  One pass of \<^verbatim>\<open>while(!fileEnd)\<close>: \<^verbatim>\<open>startTime = millis();\<close>, the guarded wait for the first
  character, the colon, the body. The result carries \<^verbatim>\<open>fileEnd\<close>.
\<close>

definition read_record :: "nat \<Rightarrow> state \<Rightarrow> (bool \<times> state) result" where
  "read_record words s =
     bind (wait_serial (s\<lparr>startTime := clock s\<rparr>)) (\<lambda>s1.
     bind (colon s1) (\<lambda>s2.
     record_body words s2))"

text \<open>
  Two names for the halves of a record's body, used to state lemmas about it: the loop over
  the payload (the skip loop for type 2, the data loop otherwise), and what follows the loop
  (nothing for type 2, whose branch ends there; the checksum field otherwise).
\<close>

definition payload :: "nat \<Rightarrow> byte \<Rightarrow> byte \<Rightarrow> byte \<Rightarrow> state \<Rightarrow> (byte \<times> state) result" where
  "payload words linelength someth checkSum s =
     (if someth = 2 then skip_loop (Suc (unat linelength)) checkSum s
      else data_loop words (someth = 1) (unat linelength) checkSum s)"

definition closing :: "byte \<Rightarrow> byte \<Rightarrow> state \<Rightarrow> (bool \<times> state) result" where
  "closing someth checkSum s =
     (if someth = 2 then Return (False, s) else check_tail (someth = 1) checkSum s)"

lemma record_body_eq:
  "record_body words s =
     bind (read_header s) (\<lambda>(ll, ty, cs, s1).
     bind (payload words ll ty cs s1) (\<lambda>(cs2, s2). closing ty cs2 s2))"
proof -
  have "(if ty = 2
         then bind (skip_loop (Suc (unat ll)) cs s1) (\<lambda>(checkSum', s2). Return (ty = 1, s2))
         else bind (data_loop words (ty = 1) (unat ll) cs s1) (\<lambda>(checkSum', s2).
                check_tail (ty = 1) checkSum' s2))
       = bind (payload words ll ty cs s1) (\<lambda>(cs2, s2). closing ty cs2 s2)" for ll ty cs s1
    by (cases "ty = 2") (simp_all add: payload_def closing_def del: skip_loop.simps)
  then show ?thesis by (simp add: record_body_def Let_def del: skip_loop.simps)
qed

lemma closing_values:
  "closing 0 cs s = check_tail False cs s"
  "closing 1 cs s = check_tail True cs s"
  "closing 2 cs s = Return (False, s)"
  "closing 3 cs s = check_tail False cs s"
  by (simp_all add: closing_def)

definition link_only :: "state \<Rightarrow> state \<Rightarrow> bool" where
  "link_only s s' \<longleftrightarrow>
     adrs s' = adrs s \<and> data s' = data s \<and> progSize s' = progSize s \<and>
     currentByte s' = currentByte s \<and> startTime s' = startTime s \<and> timeout s' = timeout s \<and>
     type s' = type s \<and> serial s' = serial s \<and> clock s' = clock s"

lemma link_only_refl: "link_only s s"
  by (simp add: link_only_def)

lemma link_only_trans: "link_only s t \<Longrightarrow> link_only t u \<Longrightarrow> link_only s u"
  by (simp add: link_only_def)

lemma transfer_link: "link_only s (snd (SPI_transfer x s))"
  by (simp add: link_only_def SPI_transfer_def split: list.splits)

lemma send_link: "link_only s (tpi_send_byte d s)"
  by (simp add: link_only_def send_state)

lemma idle2_link: "link_only s (idle2 s)"
  by (simp add: link_only_def idle2_def SPI_transfer_def split: list.splits)

lemma writeIO_link: "link_only s (writeIO a v s)"
  by (simp add: link_only_def writeIO_def send_state)

lemma recv_start_link: "recv_start s = Return (b1, s') \<Longrightarrow> link_only s s'"
proof (induction "miso s" arbitrary: s)
  case Nil
  then show ?case by (simp add: recv_start_Nil)
next
  case (Cons r rs)
  let ?s = "s\<lparr>miso := rs, mosi := mosi s @ [0xff]\<rparr>"
  from Cons(2) have m: "miso s = r # rs" by simp
  have l: "link_only s ?s" by (simp add: link_only_def)
  show ?case
  proof (cases "r = 0xff")
    case True
    with m Cons(3) have "recv_start ?s = Return (b1, s')"
      by (simp add: recv_start_idle)
    moreover have "rs = miso ?s" by simp
    ultimately have "link_only ?s s'" by (rule Cons(1) [rotated])
    with l show ?thesis by (rule link_only_trans)
  next
    case False
    with m Cons(3) have "s' = ?s" by (simp add: recv_start_hit)
    with l show ?thesis by simp
  qed
qed

lemma receive_link:
  assumes "tpi_receive_byte s = Return (v, s')"
  shows "link_only s s'"
proof -
  from assms obtain x where x: "recv_start s = Return x"
    and f: "(case x of (b1, s1) \<Rightarrow>
       let (b2, s2) = SPI_transfer 0xff s1;
           s3 = (if 0x0f = (0x0f AND b1) then snd (SPI_transfer 0xff s2) else s2)
       in bind (align b1 b2) (\<lambda>b2'. Return (b2', s3))) = Return (v, s')"
    unfolding tpi_receive_byte_def by (blast dest: bind_Return)
  obtain b1 s1 where xs: "x = (b1, s1)" by (cases x)
  obtain b2 s2 where t: "SPI_transfer 0xff s1 = (b2, s2)" by (cases "SPI_transfer 0xff s1")
  let ?s3 = "if 0x0f = (0x0f AND b1) then snd (SPI_transfer 0xff s2) else s2"
  from f xs t have "bind (align b1 b2) (\<lambda>b2'. Return (b2', ?s3)) = Return (v, s')"
    by (simp add: Let_def)
  then have "s' = ?s3" by (auto dest!: bind_Return)
  moreover have "link_only s1 s2"
    using transfer_link [of s1 "0xff"] t by simp
  moreover have "link_only s2 ?s3"
    using transfer_link [of s2 "0xff"] by (simp add: link_only_refl)
  moreover have "link_only s s1"
    using x xs by (auto dest: recv_start_link)
  ultimately show ?thesis by (simp add: link_only_def)
qed

lemma readIO_link: "readIO a s = Return (v, s') \<Longrightarrow> link_only s s'"
  unfolding readIO_def
  by (rule link_only_trans [OF send_link]) (rule receive_link)

lemma nvm_wait_link: "nvm_wait s = Return s' \<Longrightarrow> link_only s s'"
proof (induction s rule: nvm_wait.induct)
  case (1 s)
  from 1(2) obtain v s1 where r: "readIO NVMCSR s = Return (v, s1)"
    by (subst (asm) nvm_wait.simps) (auto split: result.splits)
  then have l: "link_only s s1" by (rule readIO_link)
  show ?case
  proof (cases "v AND 0x80 \<noteq> 0")
    case True
    with 1(2) r have "nvm_wait s1 = Return s'"
      by (subst (asm) nvm_wait.simps) simp
    with 1(1) r True have "link_only s1 s'" by blast
    with l show ?thesis by (rule link_only_trans)
  next
    case False
    with 1(2) r have "s' = s1" by (subst (asm) nvm_wait.simps) simp
    with l show ?thesis by simp
  qed
qed

lemma write_words_link: "link_only s (write_words i n s)"
proof (induction i n s rule: write_words.induct)
  case (1 i n s)
  show ?case
  proof (cases "i < n")
    case True
    let ?s1 = "tpi_send_byte SSTp s"
    let ?s2 = "tpi_send_byte (data ?s1 ! i) ?s1"
    let ?s3 = "tpi_send_byte SSTp ?s2"
    let ?s4 = "tpi_send_byte (data ?s3 ! (i + 1)) ?s3"
    have "link_only s (idle2 ?s4)"
      by (simp add: link_only_def idle2_def SPI_transfer_def send_state split: list.splits)
    moreover have "link_only (idle2 ?s4) (write_words (i + 2) n (idle2 ?s4))"
      using True by (intro 1) simp_all
    moreover have "write_words i n s = write_words (i + 2) n (idle2 ?s4)"
      using True by (subst write_words.simps) (simp add: Let_def)
    ultimately show ?thesis by (simp add: link_only_def)
  next
    case False
    then show ?thesis by (subst write_words.simps) (simp add: link_only_refl)
  qed
qed

lemma verify_link: "verify k c s = Return s' \<Longrightarrow> link_only s s'"
proof (induction k arbitrary: c s)
  case 0
  then show ?case by (simp add: link_only_refl)
next
  case (Suc k)
  from Suc.prems obtain b s1 where r: "tpi_receive_byte (tpi_send_byte SLDp s) = Return (b, s1)"
    and v: "(if b \<noteq> data s1 ! c then Abort (ProgramError (adrs s1) (data s1 ! c) b) s1
             else verify k (Suc c) s1) = Return s'"
    by (auto dest!: bind_Return)
  from v have "verify k (Suc c) s1 = Return s'" by (simp split: if_splits)
  then have "link_only s1 s'" by (rule Suc.IH)
  moreover have "link_only s s1"
    using r by (rule link_only_trans [OF send_link receive_link])
  ultimately show ?case by (simp add: link_only_def)
qed

lemma bind_ReturnE:
  assumes "bind m f = Return y"
  obtains x where "m = Return x" and "f x = Return y"
  using assms by (cases m) (simp_all add: bind_def)

lemma Sread_consumes:
  "Sread s = Return (c, s') \<Longrightarrow> length (serial s') < length (serial s)"
proof (induction s rule: Sread.induct)
  case (1 s)
  show ?case
  proof (cases "available s")
    case True
    with 1(2) have "Serial_read s = (c, s')" by (subst (asm) Sread.simps) simp
    with True show ?thesis
      by (auto simp: Serial_read_def available_def split: list.splits option.splits)
  next
    case False
    with 1(2) have ne: "serial s \<noteq> []" and r: "Sread (tick s) = Return (c, s')"
      by (subst (asm) Sread.simps; simp split: if_splits)+
    from 1(1) [OF False ne r] have "length (serial s') < length (serial (tick s))" .
    also have "length (serial (tick s)) \<le> length (serial s)"
      by (simp add: tick_def split: list.splits option.splits)
    finally show ?thesis .
  qed
qed

lemma wait_serial_le:
  "wait_serial s = Return s' \<Longrightarrow> length (serial s') \<le> length (serial s)"
proof (induction s rule: wait_serial.induct)
  case (1 s)
  show ?case
  proof (cases "available s")
    case True
    with 1(2) show ?thesis by (subst (asm) wait_serial.simps) simp
  next
    case False
    with 1(2) have t: "\<not> clock s - startTime s > timeout s" and r: "wait_serial (tick s) = Return s'"
      by (subst (asm) wait_serial.simps; simp split: if_splits)+
    from 1(1) [OF False t r] have "length (serial s') \<le> length (serial (tick s))" .
    also have "length (serial (tick s)) \<le> length (serial s)"
      by (simp add: tick_def split: list.splits option.splits)
    finally show ?thesis .
  qed
qed

lemma read_field_consumes:
  assumes "read_field s = Return (c0, c1, s')"
  shows "length (serial s') < length (serial s)"
proof -
  from assms obtain s1 where a: "Sread s = Return (c0, s1)" and b: "Sread s1 = Return (c1, s')"
    unfolding read_field_def by (auto dest!: bind_Return)
  from Sread_consumes [OF a] Sread_consumes [OF b] show ?thesis by simp
qed

lemma colon_consumes:
  assumes "colon s = Return s'"
  shows "length (serial s') < length (serial s)"
proof -
  from assms obtain c s1 where a: "Sread s = Return (c, s1)"
    and b: "(if c \<noteq> 0x3A
       then bind (Sread s1) (\<lambda>(c', s2). if c' \<noteq> 0x3A then Abort HexError s2 else Return s2)
       else Return s1) = Return s'"
    unfolding colon_def by (auto dest!: bind_Return)
  show ?thesis
  proof (cases "c = 0x3A")
    case True
    with b have "s' = s1" by simp
    with Sread_consumes [OF a] show ?thesis by simp
  next
    case False
    with b obtain c' where "Sread s1 = Return (c', s')"
      by (auto dest!: bind_Return split: if_splits)
    from Sread_consumes [OF a] Sread_consumes [OF this] show ?thesis by simp
  qed
qed

lemma pad_serial: "serial (pad n s) = serial s"
proof (induction n s rule: pad.induct)
  case (1 n s)
  show ?case
  proof (cases "currentByte s < n")
    case True
    then show ?thesis using 1 by (subst pad.simps) simp
  next
    case False
    then show ?thesis by (subst pad.simps) simp
  qed
qed

lemma setPointer_serial: "serial (setPointer a s) = serial s"
  by (simp add: setPointer_def Let_def send_state)

lemma flush_serial:
  assumes "flush words s = Return s'"
  shows "serial s' = serial s"
proof -
  let ?s1 = "s\<lparr>currentByte := 0\<rparr>"
  let ?s4 = "write_words 0 (2 * words) (writeIO NVMCMD NVM_WORD_WRITE (setPointer (adrs ?s1) ?s1))"
  from assms have "bind (nvm_wait ?s4) (\<lambda>s5.
      bind (verify (2 * words) 0
              (setPointer (adrs (idle2 (writeIO NVMCMD NVM_NOP s5))) (idle2 (writeIO NVMCMD NVM_NOP s5))))
        (\<lambda>s8. Return (s8\<lparr>adrs := adrs s8 + of_nat (2 * words)\<rparr>))) = Return s'"
    unfolding flush_def Let_def .
  then obtain s5 where w: "nvm_wait ?s4 = Return s5"
    and r: "bind (verify (2 * words) 0
              (setPointer (adrs (idle2 (writeIO NVMCMD NVM_NOP s5))) (idle2 (writeIO NVMCMD NVM_NOP s5))))
        (\<lambda>s8. Return (s8\<lparr>adrs := adrs s8 + of_nat (2 * words)\<rparr>)) = Return s'"
    by (rule bind_ReturnE)
  let ?s6 = "idle2 (writeIO NVMCMD NVM_NOP s5)"
  let ?s7 = "setPointer (adrs ?s6) ?s6"
  from r obtain s8 where v: "verify (2 * words) 0 ?s7 = Return s8"
    and e: "Return (s8\<lparr>adrs := adrs s8 + of_nat (2 * words)\<rparr>) = Return s'"
    by (rule bind_ReturnE)
  have "serial ?s4 = serial s"
    using write_words_link [of "writeIO NVMCMD NVM_WORD_WRITE (setPointer (adrs ?s1) ?s1)" 0 "2 * words"]
      writeIO_link [of "setPointer (adrs ?s1) ?s1" NVMCMD NVM_WORD_WRITE]
    by (simp add: link_only_def setPointer_serial)
  moreover have "serial s5 = serial ?s4" using nvm_wait_link [OF w] by (simp add: link_only_def)
  moreover have "serial ?s7 = serial s5"
    using idle2_link [of "writeIO NVMCMD NVM_NOP s5"] writeIO_link [of s5 NVMCMD NVM_NOP]
    by (simp add: link_only_def setPointer_serial)
  moreover have "serial s8 = serial ?s7" using verify_link [OF v] by (simp add: link_only_def)
  moreover have "serial s' = serial s8" using e by auto
  ultimately show ?thesis by simp
qed

text \<open>The state after the byte is stored and counted, and after the padding of the last
  group.\<close>

definition stored :: "byte \<Rightarrow> state \<Rightarrow> state" where
  "stored v s = s\<lparr>data := (data s)[currentByte s := v],
      currentByte := Suc (currentByte s), progSize := Suc (progSize s)\<rparr>"

definition padded :: "nat \<Rightarrow> bool \<Rightarrow> state \<Rightarrow> state" where
  "padded words fileEnd s = (if fileEnd then pad (2 * words) s else s)"

lemma store_byte_eq:
  "store_byte words fileEnd checkSum v s =
     (if capacity (type s) < Suc (progSize s) then Abort TooLarge (stored v s)
      else if currentByte (padded words fileEnd (stored v s)) = 2 * words
           then bind (flush words (padded words fileEnd (stored v s))) (\<lambda>s4. Return (checkSum + v, s4))
           else Return (checkSum + v, padded words fileEnd (stored v s)))"
  by (simp add: store_byte_def Let_def stored_def padded_def)

lemma padded_serial: "serial (padded words fileEnd (stored v s)) = serial s"
  by (simp add: padded_def stored_def pad_serial)

lemma store_byte_serial:
  assumes "store_byte words fileEnd checkSum v s = Return (cs, s')"
  shows "serial s' = serial s"
proof -
  let ?s3 = "padded words fileEnd (stored v s)"
  from assms have r: "(if currentByte ?s3 = 2 * words
      then bind (flush words ?s3) (\<lambda>s4. Return (checkSum + v, s4))
      else Return (checkSum + v, ?s3)) = Return (cs, s')"
    by (simp add: store_byte_eq split: if_splits)
  show ?thesis
  proof (cases "currentByte ?s3 = 2 * words")
    case True
    with r have "bind (flush words ?s3) (\<lambda>s4. Return (checkSum + v, s4)) = Return (cs, s')"
      by simp
    then obtain s4 where "flush words ?s3 = Return s4" and "Return (checkSum + v, s4) = Return (cs, s')"
      by (rule bind_ReturnE)
    then have "serial s' = serial ?s3" by (auto dest: flush_serial)
    then show ?thesis by (simp add: padded_serial)
  next
    case False
    with r have "s' = ?s3" by simp
    then show ?thesis by (simp add: padded_serial)
  qed
qed

lemma data_byte_consumes:
  assumes "data_byte words fileEnd checkSum s = Return (cs, s')"
  shows "length (serial s') < length (serial s)"
proof -
  from assms obtain s1 where w: "wait_serial s = Return s1"
    and r: "bind (read_field s1) (\<lambda>(c0, c1, s2).
       store_byte words fileEnd checkSum (hex2 c0 c1) s2) = Return (cs, s')"
    unfolding data_byte_def by (rule bind_ReturnE)
  from r obtain x where f: "read_field s1 = Return x"
    and b: "(case x of (c0, c1, s2) \<Rightarrow> store_byte words fileEnd checkSum (hex2 c0 c1) s2)
      = Return (cs, s')"
    by (rule bind_ReturnE)
  obtain c0 c1 s2 where x: "x = (c0, c1, s2)" by (cases x)
  from b x have "serial s' = serial s2" by (simp add: store_byte_serial)
  with wait_serial_le [OF w] read_field_consumes [OF f [unfolded x]] show ?thesis by simp
qed

lemma data_loop_le:
  "data_loop words fileEnd n checkSum s = Return (cs, s') \<Longrightarrow>
   length (serial s') \<le> length (serial s)"
proof (induction n arbitrary: checkSum s)
  case 0
  then show ?case by simp
next
  case (Suc n)
  from Suc.prems obtain c1 s1 where a: "data_byte words fileEnd checkSum s = Return (c1, s1)"
    and b: "data_loop words fileEnd n c1 s1 = Return (cs, s')"
    by (auto dest!: bind_Return)
  from data_byte_consumes [OF a] Suc.IH [OF b] show ?case by simp
qed

lemma skip_loop_le:
  "skip_loop n checkSum s = Return (cs, s') \<Longrightarrow> length (serial s') \<le> length (serial s)"
proof (induction n arbitrary: checkSum s)
  case 0
  then show ?case by simp
next
  case (Suc n)
  from Suc.prems obtain c0 c1 s1 where a: "read_field s = Return (c0, c1, s1)"
    and b: "skip_loop n (checkSum + hex2 c0 c1) s1 = Return (cs, s')"
    by (auto dest!: bind_Return)
  from read_field_consumes [OF a] Suc.IH [OF b] show ?case by simp
qed

lemma check_tail_consumes:
  assumes "check_tail fileEnd checkSum s = Return (fe, s')"
  shows "length (serial s') < length (serial s)"
proof -
  from assms obtain s1 c0 c1 where w: "wait_serial (s\<lparr>startTime := clock s\<rparr>) = Return s1"
    and f: "read_field s1 = Return (c0, c1, s')"
    unfolding check_tail_def by (auto simp: Let_def dest!: bind_Return split: if_splits)
  from wait_serial_le [OF w] read_field_consumes [OF f] show ?thesis by simp
qed

lemma read_header_consumes:
  assumes "read_header s = Return (ll, ty, cs, s')"
  shows "length (serial s') < length (serial s)"
proof -
  from assms obtain x1 where f1: "read_field s = Return x1"
    and r1: "(case x1 of (t0, t1, s1) \<Rightarrow>
     bind (read_field s1) (\<lambda>(a0, a1, s2).
     bind (read_field s2) (\<lambda>(a2, a3, s3).
       let linelength = hex2 t0 t1;
           checkSum = linelength + hex2 a0 a1 + hex2 a2 a3;
           s4 = s3\<lparr>adrs := fst (asciiHexToUShort a0 [a1, a2, a3]) + 0x4000\<rparr>;
           s5 = (if linelength \<noteq> 0x00 \<and> adrs s4 = 0x4000 then s4\<lparr>currentByte := 0\<rparr> else s4)
       in
     bind (read_field s5) (\<lambda>(y0, y1, s6).
       let someth = hex2 y0 y1
       in Return (linelength, someth, checkSum + someth, s6))))) = Return (ll, ty, cs, s')"
    unfolding read_header_def by (rule bind_ReturnE)
  obtain t0 t1 s1 where x1: "x1 = (t0, t1, s1)" by (cases x1)
  from r1 [unfolded x1 prod.case] obtain x2 where f2: "read_field s1 = Return x2"
    and r2: "(case x2 of (a0, a1, s2) \<Rightarrow>
     bind (read_field s2) (\<lambda>(a2, a3, s3).
       let linelength = hex2 t0 t1;
           checkSum = linelength + hex2 a0 a1 + hex2 a2 a3;
           s4 = s3\<lparr>adrs := fst (asciiHexToUShort a0 [a1, a2, a3]) + 0x4000\<rparr>;
           s5 = (if linelength \<noteq> 0x00 \<and> adrs s4 = 0x4000 then s4\<lparr>currentByte := 0\<rparr> else s4)
       in
     bind (read_field s5) (\<lambda>(y0, y1, s6).
       let someth = hex2 y0 y1
       in Return (linelength, someth, checkSum + someth, s6)))) = Return (ll, ty, cs, s')"
    by (rule bind_ReturnE)
  obtain a0 a1 s2 where x2: "x2 = (a0, a1, s2)" by (cases x2)
  from r2 [unfolded x2 prod.case] obtain x3 where f3: "read_field s2 = Return x3"
    and r3: "(case x3 of (a2, a3, s3) \<Rightarrow>
       let linelength = hex2 t0 t1;
           checkSum = linelength + hex2 a0 a1 + hex2 a2 a3;
           s4 = s3\<lparr>adrs := fst (asciiHexToUShort a0 [a1, a2, a3]) + 0x4000\<rparr>;
           s5 = (if linelength \<noteq> 0x00 \<and> adrs s4 = 0x4000 then s4\<lparr>currentByte := 0\<rparr> else s4)
       in
     bind (read_field s5) (\<lambda>(y0, y1, s6).
       let someth = hex2 y0 y1
       in Return (linelength, someth, checkSum + someth, s6))) = Return (ll, ty, cs, s')"
    by (rule bind_ReturnE)
  obtain a2 a3 s3 where x3: "x3 = (a2, a3, s3)" by (cases x3)
  let ?s4 = "s3\<lparr>adrs := fst (asciiHexToUShort a0 [a1, a2, a3]) + 0x4000\<rparr>"
  let ?s5 = "if hex2 t0 t1 \<noteq> 0x00 \<and> adrs ?s4 = 0x4000 then ?s4\<lparr>currentByte := 0\<rparr> else ?s4"
  have s5: "serial ?s5 = serial s3" by simp
  from r3 [unfolded x3 prod.case Let_def] obtain x4 where f4: "read_field ?s5 = Return x4"
    and r4: "(case x4 of (y0, y1, s6) \<Rightarrow>
       Return (hex2 t0 t1, hex2 y0 y1, hex2 t0 t1 + hex2 a0 a1 + hex2 a2 a3 + hex2 y0 y1, s6))
        = Return (ll, ty, cs, s')"
    by (rule bind_ReturnE)
  obtain y0 y1 s6 where x4: "x4 = (y0, y1, s6)" by (cases x4)
  from r4 x4 have "s' = s6" by simp
  with read_field_consumes [OF f1 [unfolded x1]] read_field_consumes [OF f2 [unfolded x2]]
    read_field_consumes [OF f3 [unfolded x3]] read_field_consumes [OF f4 [unfolded x4]] s5
  show ?thesis by simp
qed

lemma closing_le:
  assumes "closing ty checkSum s = Return (fe, s')"
  shows "length (serial s') \<le> length (serial s)"
proof (cases "ty = 2")
  case True
  with assms show ?thesis by (simp add: closing_def)
next
  case False
  with assms have "check_tail (ty = 1) checkSum s = Return (fe, s')" by (simp add: closing_def)
  from check_tail_consumes [OF this] show ?thesis by simp
qed

lemma payload_le:
  assumes "payload words ll ty cs s = Return (cs2, s2)"
  shows "length (serial s2) \<le> length (serial s)"
proof (cases "ty = 2")
  case True
  with assms have "skip_loop (Suc (unat ll)) cs s = Return (cs2, s2)"
    by (simp add: payload_def del: skip_loop.simps)
  then show ?thesis by (rule skip_loop_le)
next
  case False
  with assms have "data_loop words (ty = 1) (unat ll) cs s = Return (cs2, s2)"
    by (simp add: payload_def del: data_loop.simps)
  then show ?thesis by (rule data_loop_le)
qed

lemma record_body_consumes:
  assumes "record_body words s = Return (fe, s')"
  shows "length (serial s') < length (serial s)"
proof -
  from assms obtain x where h: "read_header s = Return x"
    and r: "(case x of (ll, ty, cs, s1) \<Rightarrow>
       bind (payload words ll ty cs s1) (\<lambda>(cs2, s2). closing ty cs2 s2)) = Return (fe, s')"
    unfolding record_body_eq by (rule bind_ReturnE)
  obtain ll ty cs s1 where x: "x = (ll, ty, cs, s1)" by (cases x)
  from r [unfolded x prod.case] obtain y
    where l: "payload words ll ty cs s1 = Return y"
      and c: "(case y of (cs2, s2) \<Rightarrow> closing ty cs2 s2) = Return (fe, s')"
    by (rule bind_ReturnE)
  obtain cs2 s2 where y: "y = (cs2, s2)" by (cases y)
  from l y have "length (serial s2) \<le> length (serial s1)" by (simp add: payload_le)
  moreover from c y have "closing ty cs2 s2 = Return (fe, s')" by simp
  then have "length (serial s') \<le> length (serial s2)" by (rule closing_le)
  moreover have "length (serial s1) < length (serial s)"
    using h x by (simp add: read_header_consumes)
  ultimately show ?thesis by simp
qed

lemma read_record_consumes:
  assumes "read_record words s = Return (fe, s')"
  shows "length (serial s') < length (serial s)"
proof -
  from assms obtain s1 where w: "wait_serial (s\<lparr>startTime := clock s\<rparr>) = Return s1"
    and r: "bind (colon s1) (\<lambda>s2. record_body words s2) = Return (fe, s')"
    unfolding read_record_def by (rule bind_ReturnE)
  from r obtain s2 where c: "colon s1 = Return s2" and b: "record_body words s2 = Return (fe, s')"
    by (rule bind_ReturnE)
  from wait_serial_le [OF w] colon_consumes [OF c] record_body_consumes [OF b]
  show ?thesis by simp
qed

text \<open>
  \<^verbatim>\<open>while(!fileEnd)\<close>, and \<^verbatim>\<open>writeProgram\<close>: \<^verbatim>\<open>currentByte = 0; progSize = 0;\<close>, the
  chip erase, the record loop. A result \<open>Return\<close> is \<^verbatim>\<open>return true\<close>.
\<close>

function records :: "nat \<Rightarrow> state \<Rightarrow> state result" where
  "records words s =
     (case read_record words s of
        Diverges \<Rightarrow> Diverges
      | Abort e s' \<Rightarrow> Abort e s'
      | Return (fileEnd, s') \<Rightarrow> if fileEnd then Return s' else records words s')"
  by pat_completeness auto
termination
  by (relation "measure (\<lambda>(w, s). length (serial s))") (auto dest: read_record_consumes)

declare records.simps [simp del]

definition writeProgram :: "state \<Rightarrow> state result" where
  "writeProgram s =
     (let s0 = s\<lparr>progSize := 0, currentByte := 0\<rparr>
      in bind (eraseChip s0) (\<lambda>s1.
           let words = words_of (type s1)
           in records words s1))"


subsection \<open>Which calls can abort, and how\<close>

lemma bind_AbortE:
  assumes "bind m f = Abort e s'"
  obtains "m = Abort e s'" | x where "m = Return x" and "f x = Abort e s'"
  using assms by (cases m) (simp_all add: bind_def)

lemma recv_start_no_abort: "recv_start s \<noteq> Abort e s'"
proof (induction "miso s" arbitrary: s)
  case Nil
  then show ?case by (simp add: recv_start_Nil)
next
  case (Cons r rs)
  from Cons(2) have m: "miso s = r # rs" by simp
  show ?case
  proof (cases "r = 0xff")
    case True
    have "rs = miso (s\<lparr>miso := rs, mosi := mosi s @ [0xff]\<rparr>)" by simp
    then have "recv_start (s\<lparr>miso := rs, mosi := mosi s @ [0xff]\<rparr>) \<noteq> Abort e s'"
      by (rule Cons(1))
    with m True show ?thesis by (simp add: recv_start_idle)
  next
    case False
    with m show ?thesis by (simp add: recv_start_hit)
  qed
qed

lemma align_no_abort: "align b1 b2 \<noteq> Abort e s'"
proof (induction b1 b2 rule: align.induct)
  case (1 b1 b2)
  show ?case
  proof (cases "b1 = 0x7f \<or> b1 = 0xff")
    case True
    then show ?thesis by (subst align.simps) auto
  next
    case False
    with 1 show ?thesis by (subst align.simps) simp
  qed
qed

lemma receive_no_abort: "tpi_receive_byte s \<noteq> Abort e s'"
proof
  assume "tpi_receive_byte s = Abort e s'"
  then show False
    unfolding tpi_receive_byte_def
  proof (cases rule: bind_AbortE)
    case 1
    then show ?thesis by (simp add: recv_start_no_abort)
  next
    case (2 x)
    obtain b1 s1 where x: "x = (b1, s1)" by (cases x)
    obtain b2 s2 where t: "SPI_transfer 0xff s1 = (b2, s2)" by (cases "SPI_transfer 0xff s1")
    from 2(2) x t show ?thesis
      by (auto simp: Let_def align_no_abort elim!: bind_AbortE)
  qed
qed

lemma readIO_no_abort: "readIO a s \<noteq> Abort e s'"
  by (simp add: readIO_def receive_no_abort)

lemma nvm_wait_no_abort: "nvm_wait s \<noteq> Abort e s'"
proof (induction s rule: nvm_wait.induct)
  case (1 s)
  show ?case
  proof (cases "readIO NVMCSR s")
    case Diverges
    then show ?thesis by (subst nvm_wait.simps) simp
  next
    case (Abort e1 s1)
    then show ?thesis by (simp add: readIO_no_abort)
  next
    case (Return x)
    obtain v s1 where x: "x = (v, s1)" by (cases x)
    show ?thesis
    proof (cases "v AND 0x80 \<noteq> 0")
      case True
      with 1 [OF Return x [symmetric]] Return x show ?thesis
        by (subst nvm_wait.simps) simp
    next
      case False
      with Return x show ?thesis by (subst nvm_wait.simps) simp
    qed
  qed
qed

lemma Sread_no_abort: "Sread s \<noteq> Abort e s'"
proof (induction s rule: Sread.induct)
  case (1 s)
  show ?case
  proof (cases "available s \<or> serial s = []")
    case True
    then show ?thesis by (subst Sread.simps) auto
  next
    case False
    with 1 show ?thesis by (subst Sread.simps) simp
  qed
qed

lemma read_field_no_abort: "read_field s \<noteq> Abort e s'"
proof
  assume "read_field s = Abort e s'"
  then show False
    unfolding read_field_def
    by (auto simp: Sread_no_abort elim!: bind_AbortE)
qed

lemma wait_serial_abort: "wait_serial s = Abort e s' \<Longrightarrow> e = TimeOut"
proof (induction s rule: wait_serial.induct)
  case (1 s)
  show ?case
  proof (cases "available s")
    case True
    with 1(2) show ?thesis by (subst (asm) wait_serial.simps) simp
  next
    case False
    show ?thesis
    proof (cases "clock s - startTime s > timeout s")
      case True
      with False 1(2) show ?thesis by (subst (asm) wait_serial.simps) simp
    next
      case t: False
      with False 1(2) have "wait_serial (tick s) = Abort e s'"
        by (subst (asm) wait_serial.simps) simp
      with 1(1) False t show ?thesis by simp
    qed
  qed
qed

lemma skip_loop_no_abort: "skip_loop n checkSum s \<noteq> Abort e s'"
proof (induction n arbitrary: checkSum s)
  case 0
  then show ?case by simp
next
  case (Suc n)
  show ?case
  proof
    assume "skip_loop (Suc n) checkSum s = Abort e s'"
    then show False
      by (auto simp: read_field_no_abort Suc elim!: bind_AbortE)
  qed
qed

lemma verify_abort: "verify k c s = Abort e s' \<Longrightarrow> \<exists>a x y. e = ProgramError a x y"
proof (induction k arbitrary: c s)
  case 0
  then show ?case by simp
next
  case (Suc k)
  from Suc.prems show ?case
    by (auto simp: receive_no_abort elim!: bind_AbortE split: if_splits dest: Suc.IH)
qed

lemma flush_abort: "flush words s = Abort e s' \<Longrightarrow> \<exists>a x y. e = ProgramError a x y"
  unfolding flush_def Let_def
  by (auto simp: nvm_wait_no_abort elim!: bind_AbortE dest: verify_abort)

subsection \<open>Reading characters that have arrived\<close>

lemma Sread_Some: "serial s = Some c # xs \<Longrightarrow> Sread s = Return (c, s\<lparr>serial := xs\<rparr>)"
  by (subst Sread.simps) (simp add: available_def Serial_read_def)

lemma Sread_None:
  "serial s = None # xs \<Longrightarrow> Sread s = Sread (s\<lparr>serial := xs, clock := Suc (clock s)\<rparr>)"
  by (subst Sread.simps) (simp add: available_def tick_def)

lemma Sread_Nil: "serial s = [] \<Longrightarrow> Sread s = Diverges"
  by (subst Sread.simps) (simp add: available_def)

lemma wait_serial_Some: "serial s = Some c # xs \<Longrightarrow> wait_serial s = Return s"
  by (subst wait_serial.simps) (simp add: available_def)

lemma read_field_Some:
  "serial s = Some c0 # Some c1 # xs \<Longrightarrow> read_field s = Return (c0, c1, s\<lparr>serial := xs\<rparr>)"
  by (simp add: read_field_def Sread_Some bind_def)

lemma colon_Some:
  "serial s = Some 0x3A # xs \<Longrightarrow> colon s = Return (s\<lparr>serial := xs\<rparr>)"
  by (simp add: colon_def Sread_Some bind_def)

lemma colon_skip:
  "serial s = Some c # Some 0x3A # xs \<Longrightarrow> c \<noteq> 0x3A \<Longrightarrow> colon s = Return (s\<lparr>serial := xs\<rparr>)"
  by (simp add: colon_def Sread_Some bind_def)

lemma colon_bad:
  "serial s = Some c # Some c' # xs \<Longrightarrow> c \<noteq> 0x3A \<Longrightarrow> c' \<noteq> 0x3A \<Longrightarrow>
   colon s = Abort HexError (s\<lparr>serial := xs\<rparr>)"
  by (simp add: colon_def Sread_Some bind_def)

lemma check_tail_Some:
  "serial s = Some c0 # Some c1 # xs \<Longrightarrow>
   check_tail fe cs s =
     (if hex2 c0 c1 = - cs then Return (fe, s\<lparr>startTime := clock s, serial := xs\<rparr>)
      else Abort Checksum (s\<lparr>startTime := clock s, serial := xs\<rparr>))"
  by (auto simp: check_tail_def wait_serial_Some read_field_Some bind_def Let_def com_inc_def
        minus_eq_not_plus_1)


section \<open>Device identification\<close>

definition identify :: "byte \<Rightarrow> byte \<Rightarrow> byte \<Rightarrow> (string \<times> nat) option" where
  "identify id1 id2 id3 =
     (if id1 = 0x1E \<and> id2 = 0x8F \<and> id3 = 0x0A then Some (''ATtiny4'', Tiny4_5)
      else if id1 = 0x1E \<and> id2 = 0x8F \<and> id3 = 0x09 then Some (''ATtiny5'', Tiny4_5)
      else if id1 = 0x1E \<and> id2 = 0x90 \<and> id3 = 0x08 then Some (''ATtiny9'', Tiny9)
      else if id1 = 0x1E \<and> id2 = 0x90 \<and> id3 = 0x03 then Some (''ATtiny10'', Tiny10)
      else if id1 = 0x1E \<and> id2 = 0x91 \<and> id3 = 0x0f then Some (''ATtiny20'', Tiny20)
      else if id1 = 0x1E \<and> id2 = 0x92 \<and> id3 = 0x0e then Some (''ATtiny40'', Tiny40)
      else if id1 = 0x1E \<and> id2 = 0x90 \<and> id3 = 0x0c then Some (''ATtiny102'', Tiny102)
      else if id1 = 0x1E \<and> id2 = 0x90 \<and> id3 = 0x0b then Some (''ATtiny104'', Tiny104)
      else None)"

definition checkID :: "state \<Rightarrow> (string \<times> state) result" where
  "checkID s =
     (let s0 = setPointer 0x3FC0 s
      in bind (tpi_receive_byte (tpi_send_byte SLDp s0)) (\<lambda>(id1, s1).
         bind (tpi_receive_byte (tpi_send_byte SLDp s1)) (\<lambda>(id2, s2).
         bind (tpi_receive_byte (tpi_send_byte SLDp s2)) (\<lambda>(id3, s3).
           case identify id1 id2 id3 of
             Some (name, t) \<Rightarrow> Return (name, s3\<lparr>type := t\<rparr>)
           | None \<Rightarrow> Return (''Unknown chip'', s3)))))"

definition signatures :: "(byte \<times> byte \<times> byte) list" where
  "signatures =
     [(0x1E, 0x8F, 0x0A), (0x1E, 0x8F, 0x09), (0x1E, 0x90, 0x08), (0x1E, 0x90, 0x03),
      (0x1E, 0x91, 0x0F), (0x1E, 0x92, 0x0E), (0x1E, 0x90, 0x0C), (0x1E, 0x90, 0x0B)]"

definition id_reads :: "byte list" where
  "id_reads =
     concat (map tpi_frame [SSTPRL, 0xC0, SSTPRH, 0x3F, SLDp]) @ [0xff, 0xff]
       @ tpi_frame SLDp @ [0xff, 0xff] @ tpi_frame SLDp @ [0xff, 0xff]"

lemma identify_None: "(identify a b c = None) = ((a, b, c) \<notin> set signatures)"
  by (auto simp: identify_def signatures_def)

lemma checkID_run:
  assumes "drop 10 (miso s) = tpi_frame id1 @ r1"
    and "drop 2 r1 = tpi_frame id2 @ r2"
    and "drop 2 r2 = tpi_frame id3 @ r3"
  shows "checkID s =
     Return (case identify id1 id2 id3 of
               Some (name, t) \<Rightarrow> (name, s\<lparr>adrs := 0x3FC0, type := t, miso := r3, mosi := mosi s @ id_reads\<rparr>)
             | None \<Rightarrow> (''Unknown chip'', s\<lparr>adrs := 0x3FC0, miso := r3, mosi := mosi s @ id_reads\<rparr>))"
proof -
  have lo: "ucast (0x3FC0 AND 0xff :: 16 word) = (0xC0 :: byte)"
    and hi: "ucast (drop_bit 8 (0x3FC0 :: 16 word) AND 0xff) = (0x3F :: byte)" by simp_all
  let ?s0 = "s\<lparr>adrs := 0x3FC0, miso := drop 8 (miso s),
      mosi := mosi s @ concat (map tpi_frame [SSTPRL, 0xC0, SSTPRH, 0x3F])\<rparr>"
  have p: "setPointer 0x3FC0 s = ?s0"
    unfolding setPointer_def Let_def lo hi by (simp add: send_state)
  let ?m1 = "mosi s @ concat (map tpi_frame [SSTPRL, 0xC0, SSTPRH, 0x3F, SLDp])"
  have a: "tpi_send_byte SLDp ?s0 = s\<lparr>adrs := 0x3FC0, miso := tpi_frame id1 @ r1, mosi := ?m1\<rparr>"
    using assms(1) by (simp add: send_state)
  let ?s1 = "s\<lparr>adrs := 0x3FC0, miso := r1, mosi := ?m1 @ [0xff, 0xff]\<rparr>"
  have r1: "tpi_receive_byte (tpi_send_byte SLDp ?s0) = Return (id1, ?s1)"
    unfolding a by (subst recv_frame [where d = id1 and r = r1]) simp_all
  let ?m2 = "?m1 @ [0xff, 0xff] @ tpi_frame SLDp"
  have b: "tpi_send_byte SLDp ?s1 = s\<lparr>adrs := 0x3FC0, miso := tpi_frame id2 @ r2, mosi := ?m2\<rparr>"
    using assms(2) by (simp add: send_state)
  let ?s2 = "s\<lparr>adrs := 0x3FC0, miso := r2, mosi := ?m2 @ [0xff, 0xff]\<rparr>"
  have r2: "tpi_receive_byte (tpi_send_byte SLDp ?s1) = Return (id2, ?s2)"
    unfolding b by (subst recv_frame [where d = id2 and r = r2]) simp_all
  let ?m3 = "?m2 @ [0xff, 0xff] @ tpi_frame SLDp"
  have c: "tpi_send_byte SLDp ?s2 = s\<lparr>adrs := 0x3FC0, miso := tpi_frame id3 @ r3, mosi := ?m3\<rparr>"
    using assms(3) by (simp add: send_state)
  let ?s3 = "s\<lparr>adrs := 0x3FC0, miso := r3, mosi := ?m3 @ [0xff, 0xff]\<rparr>"
  have r3: "tpi_receive_byte (tpi_send_byte SLDp ?s2) = Return (id3, ?s3)"
    unfolding c by (subst recv_frame [where d = id3 and r = r3]) simp_all
  have m: "?m3 @ [0xff, 0xff] = mosi s @ id_reads" by (simp add: id_reads_def)
  show ?thesis
    unfolding checkID_def Let_def p
    by (simp only: r1 r2 r3 bind_def result.case prod.case m)
       (simp split: option.splits)
qed



section \<open>Claims about the frame codec\<close>

text \<open>
  C4. For every byte value, \<^verbatim>\<open>tpi_send_byte\<close> puts the two transfers \<open>tpi_frame d\<close> on the
  line, \<^verbatim>\<open>tpi_receive_byte\<close> reading those two transfers back returns the byte (consuming
  exactly the two of them), and bit 3 of the second transfer, the parity position, is the
  even parity of the eight data bits.
\<close>

theorem frame_codec_roundtrip:
  "mosi (tpi_send_byte d s) = mosi s @ tpi_frame d
   \<and> tpi_receive_byte (t\<lparr>miso := tpi_frame d @ r\<rparr>)
       = Return (d, t\<lparr>miso := r, mosi := mosi t @ [0xff, 0xff]\<rparr>)
   \<and> bit (tpi_frame d ! 1) 3 = parity d"
proof -
  have "bit (tpi_frame d ! 1) 3 = bit (parity_fold d) 0"
    unfolding tpi_frame_def
    by (simp only: nth_Cons_Suc nth_Cons_0 One_nat_def)
       (auto simp: bit_or_iff bit_push_bit_iff bit_drop_bit_eq dest: bit_imp_le_length)
  moreover have "tpi_receive_byte (t\<lparr>miso := tpi_frame d @ r\<rparr>)
       = Return (d, t\<lparr>miso := r, mosi := mosi t @ [0xff, 0xff]\<rparr>)"
    using recv_frame [of "t\<lparr>miso := tpi_frame d @ r\<rparr>" d r] by simp
  ultimately show ?thesis
    by (simp add: mosi_send parity_fold_bit0)
qed

theorem frame_codec_roundtrip_witness:
  "mosi (tpi_send_byte 0xA5 init) = [0x2B, 0xF5]
   \<and> tpi_receive_byte (init\<lparr>miso := [0x2B, 0xF5]\<rparr>)
       = Return (0xA5, init\<lparr>miso := [], mosi := [0xff, 0xff]\<rparr>)
   \<and> bit (0xF5 :: byte) 3 = parity 0xA5"
proof -
  have f: "tpi_frame 0xA5 = [0x2B, 0xF5]"
    by (simp add: tpi_frame_def parity_fold_def)
  show ?thesis
    using frame_codec_roundtrip [where d = "0xA5" and s = init and t = init and r = "[]"]
    unfolding f by (simp add: init_def)
qed

text \<open>
  C7. With any number \<open>g\<close> of extra idle bits before the start bit (in particular 0, 3 and 7),
  beyond the two idle bits of the sender's own layout, \<^verbatim>\<open>tpi_receive_byte\<close> returns the byte
  that was sent. With no extra idle bit the line is exactly what \<^verbatim>\<open>tpi_send_byte\<close> emits.
\<close>

theorem receive_gap_invariant:
  "(\<exists>s'. tpi_receive_byte (s\<lparr>miso := map (spi_byte (wire (2 + g) d)) [0..<(2 + g) div 8 + 3]\<rparr>)
          = Return (d, s'))
   \<and> map (spi_byte (wire 2 d)) [0..<2] = tpi_frame d"
proof -
  have "map (spi_byte (wire 2 d)) [0..<2] = tpi_frame d"
    by (simp add: frame_layout numeral_2_eq_2)
  moreover have "\<exists>s'. tpi_receive_byte
      (s\<lparr>miso := map (spi_byte (wire (2 + g) d)) [0..<(2 + g) div 8 + 3]\<rparr>) = Return (d, s')"
    by (rule recv_wire [where m = "(2 + g) div 8 + 3" and n = "2 + g"]) simp_all
  ultimately show ?thesis by simp
qed



section \<open>Claims about the register access layer and identification\<close>

text \<open>
  C9, as amended. For every key whose most significant byte is not zero, as the one key the
  sketch sends (\<open>NVM_PROGRAM_ENABLE\<close>), \<^verbatim>\<open>send_skey\<close> emits the \<open>SKEY\<close> opcode followed by the
  eight bytes of the key, least significant first. The loop of \<^verbatim>\<open>send_skey\<close> runs while the
  rest of the key is not zero, so a key with leading zero bytes is sent short.
\<close>

theorem send_skey_frames:
  "drop_bit 56 key \<noteq> 0 \<Longrightarrow>
   mosi (send_skey key s) = mosi s @ concat (map tpi_frame (SKEY # key_bytes key))"
  by (simp add: send_skey_full mosi_send_all)

lemma nvm_key_bytes:
  "key_bytes NVM_PROGRAM_ENABLE = [0xFF, 0x88, 0xD8, 0xCD, 0x45, 0xAB, 0x89, 0x12]"
  by (simp add: key_bytes_def NVM_PROGRAM_ENABLE_def upt_rec)

theorem send_skey_frames_witness:
  "drop_bit 56 NVM_PROGRAM_ENABLE \<noteq> 0
   \<and> mosi (send_skey NVM_PROGRAM_ENABLE init)
       = concat (map tpi_frame [SKEY, 0xFF, 0x88, 0xD8, 0xCD, 0x45, 0xAB, 0x89, 0x12])"
proof -
  have h: "drop_bit 56 NVM_PROGRAM_ENABLE \<noteq> 0"
    by (simp add: NVM_PROGRAM_ENABLE_def)
  have "mosi init = []" by (simp add: init_def)
  with send_skey_frames [OF h, of init] h show ?thesis
    by (simp only: nvm_key_bytes append_Nil simp_thms)
qed

text \<open>
  C9 as stated fails: for the key \<open>0xFF\<close> only the opcode and one key byte are emitted
  (4 transfers), not the opcode and eight key bytes.
\<close>

theorem send_skey_short_key:
  "mosi (send_skey 0xFF init) = tpi_frame SKEY @ tpi_frame 0xFF
   \<and> mosi (send_skey 0xFF init) \<noteq> mosi init @ concat (map tpi_frame (SKEY # key_bytes 0xFF))"
proof -
  have "skey_loop 0xFF (tpi_send_byte SKEY init) = tpi_send_byte 0xFF (tpi_send_byte SKEY init)"
    by (simp add: skey_step skey_loop.simps [of 0])
  then have a: "mosi (send_skey 0xFF init) = tpi_frame SKEY @ tpi_frame 0xFF"
    by (simp add: send_skey_def mosi_send init_def)
  have b: "length (mosi init @ concat (map tpi_frame (SKEY # key_bytes 0xFF))) = 18"
    by (simp add: init_def key_bytes_def tpi_frame_def upt_rec)
  have c: "length (tpi_frame SKEY @ tpi_frame 0xFF) = 4"
    by (simp add: tpi_frame_def)
  have "mosi (send_skey 0xFF init) \<noteq> mosi init @ concat (map tpi_frame (SKEY # key_bytes 0xFF))"
  proof
    assume "mosi (send_skey 0xFF init) = mosi init @ concat (map tpi_frame (SKEY # key_bytes 0xFF))"
    then have "length (tpi_frame SKEY @ tpi_frame 0xFF)
        = length (mosi init @ concat (map tpi_frame (SKEY # key_bytes 0xFF)))"
      by (simp only: a)
    then show False by (simp only: b c)
  qed
  with a show ?thesis by simp
qed

text \<open>
  C8. \<^verbatim>\<open>checkID\<close> sets the pointer to \<open>0x3FC0\<close> and issues three loads with post-increment
  (the transfers \<open>id_reads\<close>); when the target answers them with \<open>id1\<close>, \<open>id2\<close>, \<open>id3\<close>, the
  chip named by the eight-entry table is reported and its type stored, and for a signature that
  is not in the table \<open>Unknown chip\<close> is reported and \<open>type\<close> keeps its value. The signature
  \<open>1E 90 03\<close> is the ATtiny10: type 1, one word per write, 1024 bytes; \<open>1E 99 99\<close> is in no entry.
\<close>

theorem checkID_table:
  "(drop 10 (miso s) = tpi_frame id1 @ r1 \<and> drop 2 r1 = tpi_frame id2 @ r2
      \<and> drop 2 r2 = tpi_frame id3 @ r3 \<longrightarrow>
    checkID s =
      Return (case identify id1 id2 id3 of
                Some (name, t) \<Rightarrow>
                  (name, s\<lparr>adrs := 0x3FC0, type := t, miso := r3, mosi := mosi s @ id_reads\<rparr>)
              | None \<Rightarrow>
                  (''Unknown chip'', s\<lparr>adrs := 0x3FC0, miso := r3, mosi := mosi s @ id_reads\<rparr>)))
   \<and> identify 0x1E 0x90 0x03 = Some (''ATtiny10'', 1)
   \<and> words_of 1 = 1 \<and> capacity 1 = 1024
   \<and> identify 0x1E 0x99 0x99 = None
   \<and> (identify a b c = None) = ((a, b, c) \<notin> set signatures)
   \<and> length signatures = 8 \<and> distinct signatures"
proof -
  have "identify 0x1E 0x90 0x03 = Some (''ATtiny10'', 1)"
    by (simp add: identify_def Tiny10_def)
  moreover have "words_of 1 = 1" "capacity 1 = 1024"
    by (simp_all add: words_of_def capacity_def Tiny4_5_def)
  moreover have "identify 0x1E 0x99 0x99 = None"
    by (simp add: identify_def)
  moreover have "length signatures = 8" "distinct signatures"
    by (simp_all add: signatures_def)
  ultimately show ?thesis
    using checkID_run [of s id1 r1 id2 r2 id3 r3] identify_None [of a b c] by blast
qed

theorem checkID_table_witness:
  "checkID (init\<lparr>miso := replicate 10 0xff @ tpi_frame 0x1E @ replicate 2 0xff @ tpi_frame 0x90
                       @ replicate 2 0xff @ tpi_frame 0x03\<rparr>)
     = Return (''ATtiny10'', init\<lparr>adrs := 0x3FC0, type := 1, miso := [], mosi := id_reads\<rparr>)
   \<and> checkID (init\<lparr>miso := replicate 10 0xff @ tpi_frame 0x1E @ replicate 2 0xff @ tpi_frame 0x99
                       @ replicate 2 0xff @ tpi_frame 0x99\<rparr>)
     = Return (''Unknown chip'', init\<lparr>adrs := 0x3FC0, miso := [], mosi := id_reads\<rparr>)"
proof -
  let ?m = "\<lambda>b c. replicate 10 0xff @ tpi_frame 0x1E @ replicate 2 0xff @ tpi_frame b
      @ replicate 2 0xff @ tpi_frame c"
  have d: "drop 10 (miso (init\<lparr>miso := ?m b c\<rparr>))
      = tpi_frame 0x1E @ (replicate 2 0xff @ tpi_frame b @ replicate 2 0xff @ tpi_frame c)
    \<and> drop 2 (replicate 2 0xff @ tpi_frame b @ replicate 2 0xff @ tpi_frame c)
      = tpi_frame b @ (replicate 2 0xff @ tpi_frame c)
    \<and> drop 2 (replicate 2 0xff @ tpi_frame c) = tpi_frame c @ []" for b c :: byte
    by simp
  have i: "identify 0x1E 0x90 0x03 = Some (''ATtiny10'', 1)" "identify 0x1E 0x99 0x99 = None"
    by (simp_all add: identify_def Tiny10_def)
  have m: "mosi init = []" by (simp add: init_def)
  from checkID_table [where s = "init\<lparr>miso := ?m 0x90 0x03\<rparr>" and ?id1.0 = "0x1E"
      and ?id2.0 = "0x90" and ?id3.0 = "0x03" and ?r3.0 = "[]"
      and ?r1.0 = "replicate 2 0xff @ tpi_frame 0x90 @ replicate 2 0xff @ tpi_frame 0x03"
      and ?r2.0 = "replicate 2 0xff @ tpi_frame 0x03"] d [of "0x90" "0x03"]
  have "checkID (init\<lparr>miso := ?m 0x90 0x03\<rparr>)
     = Return (''ATtiny10'', init\<lparr>adrs := 0x3FC0, type := 1, miso := [], mosi := id_reads\<rparr>)"
    by (simp add: i m)
  moreover
  from checkID_table [where s = "init\<lparr>miso := ?m 0x99 0x99\<rparr>" and ?id1.0 = "0x1E"
      and ?id2.0 = "0x99" and ?id3.0 = "0x99" and ?r3.0 = "[]"
      and ?r1.0 = "replicate 2 0xff @ tpi_frame 0x99 @ replicate 2 0xff @ tpi_frame 0x99"
      and ?r2.0 = "replicate 2 0xff @ tpi_frame 0x99"] d [of "0x99" "0x99"]
  have "checkID (init\<lparr>miso := ?m 0x99 0x99\<rparr>)
     = Return (''Unknown chip'', init\<lparr>adrs := 0x3FC0, miso := [], mosi := id_reads\<rparr>)"
    by (simp add: i m)
  ultimately show ?thesis by simp
qed


section \<open>Errors of the loader\<close>

lemma colon_abort: "colon s = Abort e s' \<Longrightarrow> e = HexError"
  unfolding colon_def
  by (auto simp: Sread_no_abort elim!: bind_AbortE split: if_splits)

lemma store_byte_abort:
  assumes "store_byte words fileEnd checkSum v s = Abort e s'"
  shows "e = TooLarge \<or> (\<exists>a x y. e = ProgramError a x y)"
proof (cases "capacity (type s) < Suc (progSize s)")
  case True
  with assms show ?thesis by (simp add: store_byte_eq)
next
  case False
  let ?s3 = "padded words fileEnd (stored v s)"
  from assms False have c: "currentByte ?s3 = 2 * words"
    and "bind (flush words ?s3) (\<lambda>s4. Return (checkSum + v, s4)) = Abort e s'"
    by (simp_all add: store_byte_eq split: if_splits)
  then have "flush words ?s3 = Abort e s'"
    by (auto elim!: bind_AbortE)
  then show ?thesis by (auto dest: flush_abort)
qed

lemma data_byte_abort:
  assumes "data_byte words fileEnd checkSum s = Abort e s'"
  shows "e = TimeOut \<or> e = TooLarge \<or> (\<exists>a x y. e = ProgramError a x y)"
  using assms unfolding data_byte_def
proof (cases rule: bind_AbortE)
  case 1
  then show ?thesis by (auto dest: wait_serial_abort)
next
  case (2 s1)
  from 2(2) show ?thesis
  proof (cases rule: bind_AbortE)
    case 1
    then show ?thesis by (simp add: read_field_no_abort)
  next
    case (2 x)
    then show ?thesis by (cases x) (auto dest: store_byte_abort)
  qed
qed

lemma data_loop_abort:
  "data_loop words fileEnd n checkSum s = Abort e s' \<Longrightarrow>
   e = TimeOut \<or> e = TooLarge \<or> (\<exists>a x y. e = ProgramError a x y)"
proof (induction n arbitrary: checkSum s)
  case 0
  then show ?case by simp
next
  case (Suc n)
  from Suc.prems have "bind (data_byte words fileEnd checkSum s) (\<lambda>(checkSum', s').
       data_loop words fileEnd n checkSum' s') = Abort e s'" by simp
  then show ?case
  proof (cases rule: bind_AbortE)
    case 1
    then show ?thesis by (rule data_byte_abort)
  next
    case (2 x)
    then show ?thesis by (cases x) (auto dest: Suc.IH)
  qed
qed

lemma check_tail_abort:
  assumes "check_tail fileEnd checkSum s = Abort e s'"
  shows "e = TimeOut \<or> e = Checksum"
  using assms unfolding check_tail_def
proof (cases rule: bind_AbortE)
  case 1
  then show ?thesis by (auto dest: wait_serial_abort)
next
  case (2 s1)
  from 2(2) show ?thesis
  proof (cases rule: bind_AbortE)
    case 1
    then show ?thesis by (simp add: read_field_no_abort)
  next
    case (2 x)
    then show ?thesis by (cases x) (auto simp: Let_def split: if_splits)
  qed
qed

lemma read_header_no_abort: "read_header s \<noteq> Abort e s'"
proof
  assume "read_header s = Abort e s'"
  then show False
    unfolding read_header_def
    by (auto simp: read_field_no_abort Let_def elim!: bind_AbortE)
qed

lemma payload_abort:
  assumes "payload words ll ty cs s = Abort e s'"
  shows "e = TimeOut \<or> e = TooLarge \<or> (\<exists>a x y. e = ProgramError a x y)"
  using assms
  by (cases "ty = 2")
     (auto simp: payload_def skip_loop_no_abort simp del: skip_loop.simps dest: data_loop_abort)

lemma closing_abort:
  assumes "closing ty cs s = Abort e s'"
  shows "e = TimeOut \<or> e = Checksum"
  using assms by (cases "ty = 2") (auto simp: closing_def dest: check_tail_abort)

lemma record_body_abort:
  assumes "record_body words s = Abort e s'"
  shows "e = TimeOut \<or> e = TooLarge \<or> e = Checksum \<or> (\<exists>a x y. e = ProgramError a x y)"
  using assms unfolding record_body_eq
proof (cases rule: bind_AbortE)
  case 1
  then show ?thesis by (simp add: read_header_no_abort)
next
  case (2 x)
  obtain ll ty cs s1 where x: "x = (ll, ty, cs, s1)" by (cases x)
  from 2(2) [unfolded x prod.case] show ?thesis
  proof (cases rule: bind_AbortE)
    case 1
    then show ?thesis by (auto dest: payload_abort)
  next
    case (2 y)
    then show ?thesis by (cases y) (auto dest: closing_abort)
  qed
qed

lemma read_record_HexError:
  "read_record words s = Abort HexError s' \<longleftrightarrow>
     (\<exists>s1. wait_serial (s\<lparr>startTime := clock s\<rparr>) = Return s1 \<and> colon s1 = Abort HexError s')"
proof
  assume a: "read_record words s = Abort HexError s'"
  then show "\<exists>s1. wait_serial (s\<lparr>startTime := clock s\<rparr>) = Return s1 \<and> colon s1 = Abort HexError s'"
    unfolding read_record_def
  proof (cases rule: bind_AbortE)
    case 1
    then show ?thesis by (auto dest: wait_serial_abort)
  next
    case (2 s1)
    from 2(2) show ?thesis
    proof (cases rule: bind_AbortE)
      case 1
      with 2(1) show ?thesis by blast
    next
      case (2 s2)
      then show ?thesis by (auto dest: record_body_abort)
    qed
  qed
next
  assume "\<exists>s1. wait_serial (s\<lparr>startTime := clock s\<rparr>) = Return s1 \<and> colon s1 = Abort HexError s'"
  then show "read_record words s = Abort HexError s'"
    by (auto simp: read_record_def bind_def)
qed

lemma colon_HexError:
  "colon s = Abort HexError s' \<longleftrightarrow>
     (\<exists>c s1 c'. Sread s = Return (c, s1) \<and> c \<noteq> 0x3A \<and> Sread s1 = Return (c', s') \<and> c' \<noteq> 0x3A)"
  unfolding colon_def
  by (auto simp: Sread_no_abort bind_def split: result.splits if_splits)

lemma hex_pair:
  "asciiHexToUShort c0 [c1] =
     (if c1 = 0 then (scast (hex_digit c0), [hex_digit c0, 0])
      else (push_bit 4 (scast (hex_digit c0)) + scast (hex_digit c1), [hex_digit c0, hex_digit c1]))"
  by (simp add: asciiHexToUShort_def hex_loop.simps Let_def)

text \<open>
  C10. One pass of the record loop reports a malformed record exactly when the wait for the
  record's first character returns and neither that character nor the next one is a colon.
  The field decoder has no error result: a character outside \<open>0\<close>-\<open>9\<close> and \<open>A\<close>-\<open>F\<close> (a lower
  case digit too) enters the value with its character code, so \<open>a0\<close> decodes to \<open>0x10\<close>; and
  the buffer the decoder is given comes back rewritten, each digit replaced by its value.
\<close>

theorem malformed_only_by_colon:
  "(read_record words s = Abort HexError s' \<longleftrightarrow>
      (\<exists>s1 c s2 c'. wait_serial (s\<lparr>startTime := clock s\<rparr>) = Return s1
         \<and> Sread s1 = Return (c, s2) \<and> c \<noteq> 0x3A \<and> Sread s2 = Return (c', s') \<and> c' \<noteq> 0x3A))
   \<and> (c1 \<noteq> 0 \<longrightarrow> asciiHexToUShort c0 [c1] =
         (push_bit 4 (scast (hex_digit c0)) + scast (hex_digit c1), [hex_digit c0, hex_digit c1]))
   \<and> (\<not> (0x30 \<le> c \<and> c \<le> 0x39) \<and> \<not> (0x41 \<le> c \<and> c \<le> 0x46) \<longrightarrow> hex_digit c = c)
   \<and> hex2 0x61 0x30 = 0x10
   \<and> asciiHexToUShort 0x31 [0x46] = (0x1F, [0x01, 0x0F])"
proof -
  have "hex2 0x61 0x30 = 0x10"
    by (simp add: hex2_def hex_pair hex_digit_def)
  moreover have "asciiHexToUShort 0x31 [0x46] = (0x1F, [0x01, 0x0F])"
    by (simp add: hex_pair hex_digit_def)
  moreover have "\<not> (0x30 \<le> c \<and> c \<le> 0x39) \<and> \<not> (0x41 \<le> c \<and> c \<le> 0x46) \<longrightarrow> hex_digit c = c"
    by (simp add: hex_digit_def)
  moreover have "c1 \<noteq> 0 \<longrightarrow> asciiHexToUShort c0 [c1] =
         (push_bit 4 (scast (hex_digit c0)) + scast (hex_digit c1), [hex_digit c0, hex_digit c1])"
    by (simp add: hex_pair)
  moreover have "read_record words s = Abort HexError s' \<longleftrightarrow>
      (\<exists>s1 c s2 c'. wait_serial (s\<lparr>startTime := clock s\<rparr>) = Return s1
         \<and> Sread s1 = Return (c, s2) \<and> c \<noteq> 0x3A \<and> Sread s2 = Return (c', s') \<and> c' \<noteq> 0x3A)"
    unfolding read_record_HexError colon_HexError by blast
  ultimately show ?thesis by blast
qed

theorem malformed_only_by_colon_witness:
  "read_record 1 (init\<lparr>serial := [Some 0x78, Some 0x79]\<rparr>)
     = Abort HexError (init\<lparr>serial := []\<rparr>)
   \<and> asciiHexToUShort 0x61 [0x67] = (0x677, [0x61, 0x67])
   \<and> hex_digit 0x67 = 0x67"
proof -
  let ?s = "init\<lparr>serial := [Some 0x78, Some 0x79]\<rparr>"
  have st: "?s\<lparr>startTime := clock ?s\<rparr> = ?s" by (simp add: init_def)
  have w: "wait_serial ?s = Return ?s" by (rule wait_serial_Some) simp
  have r1: "Sread ?s = Return (0x78, init\<lparr>serial := [Some 0x79]\<rparr>)"
    by (subst Sread_Some [where c = "0x78" and xs = "[Some 0x79]"]) simp_all
  have r2: "Sread (init\<lparr>serial := [Some 0x79]\<rparr>) = Return (0x79, init\<lparr>serial := []\<rparr>)"
    by (subst Sread_Some [where c = "0x79" and xs = "[]"]) simp_all
  note t = malformed_only_by_colon [where s = ?s and words = 1 and s' = "init\<lparr>serial := []\<rparr>"
      and ?c0.0 = "0x61" and ?c1.0 = "0x67" and c = "0x67"]
  from t have "read_record 1 ?s = Abort HexError (init\<lparr>serial := []\<rparr>)"
    using w r1 r2 unfolding st by auto
  moreover from t have "hex_digit 0x67 = (0x67 :: byte)" by simp
  moreover from t have "asciiHexToUShort 0x61 [0x67] = (0x677, [0x61, 0x67])"
    by (simp add: hex_digit_def)
  ultimately show ?thesis by simp
qed

section \<open>The byte counter\<close>

definition same_counts :: "state \<Rightarrow> state \<Rightarrow> bool" where
  "same_counts s s' \<longleftrightarrow> type s' = type s \<and> progSize s' = progSize s"

lemma same_counts_refl: "same_counts s s"
  by (simp add: same_counts_def)

lemma same_counts_trans: "same_counts s t \<Longrightarrow> same_counts t u \<Longrightarrow> same_counts s u"
  by (simp add: same_counts_def)

lemma link_counts: "link_only s s' \<Longrightarrow> same_counts s s'"
  by (simp add: link_only_def same_counts_def)

lemma Sread_counts: "Sread s = Return (c, s') \<Longrightarrow> same_counts s s'"
proof (induction s rule: Sread.induct)
  case (1 s)
  show ?case
  proof (cases "available s")
    case True
    with 1(2) have "Serial_read s = (c, s')" by (subst (asm) Sread.simps) simp
    then show ?thesis
      by (auto simp: Serial_read_def same_counts_def split: list.splits option.splits)
  next
    case False
    with 1(2) have ne: "serial s \<noteq> []" and r: "Sread (tick s) = Return (c, s')"
      by (subst (asm) Sread.simps; simp split: if_splits)+
    from 1(1) [OF False ne r] have "same_counts (tick s) s'" .
    then show ?thesis by (simp add: same_counts_def tick_def)
  qed
qed

lemma wait_serial_counts: "wait_serial s = Return s' \<Longrightarrow> same_counts s s'"
proof (induction s rule: wait_serial.induct)
  case (1 s)
  show ?case
  proof (cases "available s")
    case True
    with 1(2) show ?thesis by (subst (asm) wait_serial.simps) (simp add: same_counts_refl)
  next
    case False
    with 1(2) have t: "\<not> clock s - startTime s > timeout s" and r: "wait_serial (tick s) = Return s'"
      by (subst (asm) wait_serial.simps; simp split: if_splits)+
    from 1(1) [OF False t r] have "same_counts (tick s) s'" .
    then show ?thesis by (simp add: same_counts_def tick_def)
  qed
qed

lemma read_field_counts:
  assumes "read_field s = Return (c0, c1, s')"
  shows "same_counts s s'"
proof -
  from assms obtain s1 where a: "Sread s = Return (c0, s1)" and b: "Sread s1 = Return (c1, s')"
    unfolding read_field_def by (auto dest!: bind_Return)
  from Sread_counts [OF a] Sread_counts [OF b] show ?thesis by (rule same_counts_trans)
qed

lemma colon_counts:
  assumes "colon s = Return s'"
  shows "same_counts s s'"
proof -
  from assms obtain x where a: "Sread s = Return x"
    and b: "(case x of (c, s1) \<Rightarrow> if c \<noteq> 0x3A
       then bind (Sread s1) (\<lambda>(c', s2). if c' \<noteq> 0x3A then Abort HexError s2 else Return s2)
       else Return s1) = Return s'"
    unfolding colon_def by (rule bind_ReturnE)
  obtain c s1 where x: "x = (c, s1)" by (cases x)
  note a1 = Sread_counts [OF a [unfolded x]]
  show ?thesis
  proof (cases "c = 0x3A")
    case True
    with b x have "s' = s1" by simp
    with a1 show ?thesis by simp
  next
    case False
    with b x have "bind (Sread s1) (\<lambda>(c', s2). if c' \<noteq> 0x3A then Abort HexError s2 else Return s2)
        = Return s'" by simp
    then obtain y where c: "Sread s1 = Return y"
      and d: "(case y of (c', s2) \<Rightarrow> if c' \<noteq> 0x3A then Abort HexError s2 else Return s2) = Return s'"
      by (rule bind_ReturnE)
    obtain c' s2 where y: "y = (c', s2)" by (cases y)
    from d y have "s' = s2" by (simp split: if_splits)
    with Sread_counts [OF c [unfolded y]] a1 show ?thesis by (auto intro: same_counts_trans)
  qed
qed

lemma pad_counts: "same_counts s (pad n s)"
proof (induction n s rule: pad.induct)
  case (1 n s)
  show ?case
  proof (cases "currentByte s < n")
    case True
    let ?s = "s\<lparr>data := (data s)[currentByte s := 0], currentByte := Suc (currentByte s)\<rparr>"
    from 1 [OF True] have "same_counts ?s (pad n ?s)" .
    moreover have "pad n s = pad n ?s" using True by (subst pad.simps) simp
    ultimately show ?thesis by (simp add: same_counts_def)
  next
    case False
    then show ?thesis by (subst pad.simps) (simp add: same_counts_refl)
  qed
qed

lemma setPointer_counts: "same_counts s (setPointer a s)"
  by (simp add: same_counts_def setPointer_def Let_def send_state)

lemma flush_counts:
  assumes "flush words s = Return s'"
  shows "same_counts s s'"
proof -
  let ?s1 = "s\<lparr>currentByte := 0\<rparr>"
  let ?s3 = "writeIO NVMCMD NVM_WORD_WRITE (setPointer (adrs ?s1) ?s1)"
  let ?s4 = "write_words 0 (2 * words) ?s3"
  from assms have "bind (nvm_wait ?s4) (\<lambda>s5.
      bind (verify (2 * words) 0
              (setPointer (adrs (idle2 (writeIO NVMCMD NVM_NOP s5))) (idle2 (writeIO NVMCMD NVM_NOP s5))))
        (\<lambda>s8. Return (s8\<lparr>adrs := adrs s8 + of_nat (2 * words)\<rparr>))) = Return s'"
    unfolding flush_def Let_def .
  then obtain s5 where w: "nvm_wait ?s4 = Return s5"
    and r: "bind (verify (2 * words) 0
              (setPointer (adrs (idle2 (writeIO NVMCMD NVM_NOP s5))) (idle2 (writeIO NVMCMD NVM_NOP s5))))
        (\<lambda>s8. Return (s8\<lparr>adrs := adrs s8 + of_nat (2 * words)\<rparr>)) = Return s'"
    by (rule bind_ReturnE)
  let ?s6 = "idle2 (writeIO NVMCMD NVM_NOP s5)"
  let ?s7 = "setPointer (adrs ?s6) ?s6"
  from r obtain s8 where v: "verify (2 * words) 0 ?s7 = Return s8"
    and e: "Return (s8\<lparr>adrs := adrs s8 + of_nat (2 * words)\<rparr>) = Return s'"
    by (rule bind_ReturnE)
  have "same_counts s ?s3"
    using writeIO_link [of "setPointer (adrs ?s1) ?s1" NVMCMD NVM_WORD_WRITE]
      setPointer_counts [of ?s1 "adrs ?s1"]
    by (simp add: link_only_def same_counts_def)
  moreover have "same_counts ?s3 ?s4" by (rule link_counts) (rule write_words_link)
  moreover have "same_counts ?s4 s5" using w by (intro link_counts nvm_wait_link)
  moreover have "same_counts s5 ?s7"
    using idle2_link [of "writeIO NVMCMD NVM_NOP s5"] writeIO_link [of s5 NVMCMD NVM_NOP]
      setPointer_counts [of ?s6 "adrs ?s6"]
    by (simp add: link_only_def same_counts_def)
  moreover have "same_counts ?s7 s8" using v by (intro link_counts verify_link)
  moreover have "same_counts s8 s'" using e by (auto simp: same_counts_def)
  ultimately show ?thesis by (simp add: same_counts_def)
qed

lemma eraseChip_counts:
  assumes "eraseChip s = Return s'"
  shows "same_counts s s'"
proof -
  let ?s2 = "writeIO NVMCMD NVM_CHIP_ERASE (setPointer 0x4001 s)"
  let ?s6 = "tpi_send_byte 0xAA (tpi_send_byte SSTp (tpi_send_byte 0xAA (tpi_send_byte SSTp
     (tpi_send_byte 0xAA (tpi_send_byte SSTp (tpi_send_byte 0xAA (tpi_send_byte SSTp ?s2)))))))"
  from assms have w: "nvm_wait ?s6 = Return s'" unfolding eraseChip_def Let_def .
  have "same_counts s ?s6"
    by (simp add: same_counts_def send_state writeIO_def setPointer_def Let_def)
  moreover have "same_counts ?s6 s'" using w by (intro link_counts nvm_wait_link)
  ultimately show ?thesis by (rule same_counts_trans)
qed

lemma stored_counts: "type (stored v s) = type s" "progSize (stored v s) = Suc (progSize s)"
  by (simp_all add: stored_def)

lemma padded_counts: "same_counts s (padded words fileEnd s)"
  by (simp add: padded_def pad_counts same_counts_refl)

lemma store_byte_TooLarge:
  "store_byte words fileEnd checkSum v s = Abort TooLarge s' \<longleftrightarrow>
     capacity (type s) \<le> progSize s \<and> s' = stored v s"
proof (cases "capacity (type s) < Suc (progSize s)")
  case True
  then show ?thesis by (auto simp: store_byte_eq)
next
  case False
  have "store_byte words fileEnd checkSum v s \<noteq> Abort TooLarge s'"
  proof
    assume a: "store_byte words fileEnd checkSum v s = Abort TooLarge s'"
    let ?s3 = "padded words fileEnd (stored v s)"
    from a False have "bind (flush words ?s3) (\<lambda>s4. Return (checkSum + v, s4)) = Abort TooLarge s'"
      by (simp add: store_byte_eq split: if_splits)
    then have "flush words ?s3 = Abort TooLarge s'" by (auto elim!: bind_AbortE)
    then show False by (auto dest: flush_abort)
  qed
  with False show ?thesis by simp
qed

lemma store_byte_Return:
  assumes "store_byte words fileEnd checkSum v s = Return (cs, s')"
  shows "cs = checkSum + v \<and> type s' = type s \<and> progSize s' = Suc (progSize s)
         \<and> progSize s' \<le> capacity (type s)"
proof -
  let ?s3 = "padded words fileEnd (stored v s)"
  from assms have c: "\<not> capacity (type s) < Suc (progSize s)"
    by (auto simp: store_byte_eq split: if_splits)
  have s3: "type ?s3 = type s" "progSize ?s3 = Suc (progSize s)"
    using padded_counts [of "stored v s" words fileEnd] by (simp_all add: same_counts_def stored_counts)
  from assms c have r: "(if currentByte ?s3 = 2 * words
      then bind (flush words ?s3) (\<lambda>s4. Return (checkSum + v, s4))
      else Return (checkSum + v, ?s3)) = Return (cs, s')"
    by (simp add: store_byte_eq)
  have "cs = checkSum + v \<and> same_counts ?s3 s'"
  proof (cases "currentByte ?s3 = 2 * words")
    case True
    with r have "bind (flush words ?s3) (\<lambda>s4. Return (checkSum + v, s4)) = Return (cs, s')"
      by simp
    then obtain s4 where "flush words ?s3 = Return s4" and "Return (checkSum + v, s4) = Return (cs, s')"
      by (rule bind_ReturnE)
    then show ?thesis by (auto dest: flush_counts)
  next
    case False
    with r show ?thesis by (simp add: same_counts_refl)
  qed
  with s3 c show ?thesis by (simp add: same_counts_def)
qed

lemma data_byte_Return:
  assumes "data_byte words fileEnd checkSum s = Return (cs, s')"
  shows "type s' = type s \<and> progSize s' = Suc (progSize s) \<and> progSize s' \<le> capacity (type s)"
proof -
  from assms obtain s1 where w: "wait_serial s = Return s1"
    and r: "bind (read_field s1) (\<lambda>(c0, c1, s2).
       store_byte words fileEnd checkSum (hex2 c0 c1) s2) = Return (cs, s')"
    unfolding data_byte_def by (rule bind_ReturnE)
  from r obtain x where f: "read_field s1 = Return x"
    and b: "(case x of (c0, c1, s2) \<Rightarrow> store_byte words fileEnd checkSum (hex2 c0 c1) s2)
      = Return (cs, s')"
    by (rule bind_ReturnE)
  obtain c0 c1 s2 where x: "x = (c0, c1, s2)" by (cases x)
  from b x have "store_byte words fileEnd checkSum (hex2 c0 c1) s2 = Return (cs, s')" by simp
  note store_byte_Return [OF this]
  moreover have "same_counts s s2"
    using wait_serial_counts [OF w] read_field_counts [OF f [unfolded x]]
    by (rule same_counts_trans)
  ultimately show ?thesis by (simp add: same_counts_def)
qed

lemma data_byte_TooLarge:
  assumes "data_byte words fileEnd checkSum s = Abort TooLarge s'"
  shows "type s' = type s \<and> progSize s' = Suc (progSize s) \<and> capacity (type s) \<le> progSize s"
  using assms unfolding data_byte_def
proof (cases rule: bind_AbortE)
  case 1
  then show ?thesis by (auto dest: wait_serial_abort)
next
  case (2 s1)
  from 2(2) show ?thesis
  proof (cases rule: bind_AbortE)
    case 1
    then show ?thesis by (simp add: read_field_no_abort)
  next
    case b: (2 x)
    obtain c0 c1 s2 where x: "x = (c0, c1, s2)" by (cases x)
    from b(2) x have "capacity (type s2) \<le> progSize s2 \<and> s' = stored (hex2 c0 c1) s2"
      by (simp add: store_byte_TooLarge)
    moreover have "same_counts s s2"
      using wait_serial_counts [OF 2(1)] read_field_counts [OF b(1) [unfolded x]]
      by (rule same_counts_trans)
    ultimately show ?thesis by (simp add: same_counts_def stored_counts)
  qed
qed

lemma data_loop_Return:
  "data_loop words fileEnd n checkSum s = Return (cs, s') \<Longrightarrow> progSize s \<le> capacity (type s) \<Longrightarrow>
   type s' = type s \<and> progSize s' = progSize s + n \<and> progSize s' \<le> capacity (type s)"
proof (induction n arbitrary: checkSum s)
  case 0
  then show ?case by simp
next
  case (Suc n)
  from Suc.prems(1) have "bind (data_byte words fileEnd checkSum s) (\<lambda>(checkSum', s').
       data_loop words fileEnd n checkSum' s') = Return (cs, s')" by simp
  then obtain x where a: "data_byte words fileEnd checkSum s = Return x"
    and b: "(case x of (checkSum', s') \<Rightarrow> data_loop words fileEnd n checkSum' s') = Return (cs, s')"
    by (rule bind_ReturnE)
  obtain c1 s1 where x: "x = (c1, s1)" by (cases x)
  note d = data_byte_Return [OF a [unfolded x]]
  from b x have "data_loop words fileEnd n c1 s1 = Return (cs, s')" by simp
  from Suc.IH [OF this] d show ?case by simp
qed

lemma data_loop_TooLarge:
  "data_loop words fileEnd n checkSum s = Abort TooLarge s' \<Longrightarrow> progSize s \<le> capacity (type s) \<Longrightarrow>
   type s' = type s \<and> progSize s' = Suc (capacity (type s))"
proof (induction n arbitrary: checkSum s)
  case 0
  then show ?case by simp
next
  case (Suc n)
  from Suc.prems(1) have "bind (data_byte words fileEnd checkSum s) (\<lambda>(checkSum', s').
       data_loop words fileEnd n checkSum' s') = Abort TooLarge s'" by simp
  then show ?case
  proof (cases rule: bind_AbortE)
    case 1
    from data_byte_TooLarge [OF this] Suc.prems(2) show ?thesis by simp
  next
    case (2 x)
    obtain c1 s1 where x: "x = (c1, s1)" by (cases x)
    note d = data_byte_Return [OF 2(1) [unfolded x]]
    from 2(2) x have "data_loop words fileEnd n c1 s1 = Abort TooLarge s'" by simp
    from Suc.IH [OF this] d show ?thesis by simp
  qed
qed

lemma skip_loop_counts:
  "skip_loop n checkSum s = Return (cs, s') \<Longrightarrow> same_counts s s'"
proof (induction n arbitrary: checkSum s)
  case 0
  then show ?case by (simp add: same_counts_refl)
next
  case (Suc n)
  from Suc.prems have "bind (read_field s) (\<lambda>(c0, c1, s').
       skip_loop n (checkSum + hex2 c0 c1) s') = Return (cs, s')" by simp
  then obtain x where a: "read_field s = Return x"
    and b: "(case x of (c0, c1, s') \<Rightarrow> skip_loop n (checkSum + hex2 c0 c1) s') = Return (cs, s')"
    by (rule bind_ReturnE)
  obtain c0 c1 s1 where x: "x = (c0, c1, s1)" by (cases x)
  from b x have "skip_loop n (checkSum + hex2 c0 c1) s1 = Return (cs, s')" by simp
  from read_field_counts [OF a [unfolded x]] Suc.IH [OF this] show ?case
    by (rule same_counts_trans)
qed

lemma check_tail_counts:
  assumes "check_tail fileEnd checkSum s = Return (fe, s')"
  shows "same_counts s s'"
proof -
  from assms obtain s1 where w: "wait_serial (s\<lparr>startTime := clock s\<rparr>) = Return s1"
    and r: "bind (read_field s1) (\<lambda>(c0, c1, s2).
       let checkSum' = com_inc checkSum;
           someth = hex2 c0 c1
       in if checkSum' \<noteq> someth then Abort Checksum s2
          else Return (fileEnd, s2)) = Return (fe, s')"
    unfolding check_tail_def by (rule bind_ReturnE)
  from r obtain x where f: "read_field s1 = Return x"
    and b: "(case x of (c0, c1, s2) \<Rightarrow>
       let checkSum' = com_inc checkSum;
           someth = hex2 c0 c1
       in if checkSum' \<noteq> someth then Abort Checksum s2
          else Return (fileEnd, s2)) = Return (fe, s')"
    by (rule bind_ReturnE)
  obtain c0 c1 s2 where x: "x = (c0, c1, s2)" by (cases x)
  from b x have "s' = s2" by (simp add: Let_def split: if_splits)
  with wait_serial_counts [OF w] read_field_counts [OF f [unfolded x]]
  show ?thesis by (simp add: same_counts_def)
qed

lemma bind_cases:
  assumes "bind m f = r" and "r \<noteq> Diverges"
  obtains e s where "m = Abort e s" and "r = Abort e s"
  | x where "m = Return x" and "f x = r"
  using assms by (cases m) (auto simp: bind_def)

text \<open>The state in which the record type is read: the record's address is in \<open>adrs\<close> and the
  accumulator index is reset for a non-empty record at offset 0.\<close>

definition addressed :: "byte \<Rightarrow> byte \<Rightarrow> byte \<Rightarrow> byte \<Rightarrow> byte \<Rightarrow> state \<Rightarrow> state" where
  "addressed linelength a0 a1 a2 a3 s =
     (let s4 = s\<lparr>adrs := fst (asciiHexToUShort a0 [a1, a2, a3]) + 0x4000\<rparr>
      in if linelength \<noteq> 0x00 \<and> adrs s4 = 0x4000 then s4\<lparr>currentByte := 0\<rparr> else s4)"

lemma read_header_cases:
  assumes "read_header s = r" and "r \<noteq> Diverges"
  obtains t0 t1 s1 a0 a1 s2 a2 a3 s3 y0 y1 s4
  where "read_field s = Return (t0, t1, s1)"
    and "read_field s1 = Return (a0, a1, s2)"
    and "read_field s2 = Return (a2, a3, s3)"
    and "read_field (addressed (hex2 t0 t1) a0 a1 a2 a3 s3) = Return (y0, y1, s4)"
    and "r = Return (hex2 t0 t1, hex2 y0 y1, hex2 t0 t1 + hex2 a0 a1 + hex2 a2 a3 + hex2 y0 y1, s4)"
proof -
  from assms [unfolded read_header_def] show ?thesis
  proof (cases rule: bind_cases)
    case (1 e s)
    then show ?thesis by (simp add: read_field_no_abort)
  next
    case (2 x1)
    obtain t0 t1 s1 where x1: "x1 = (t0, t1, s1)" by (cases x1)
    from 2(2) [unfolded x1 prod.case] assms(2) show ?thesis
    proof (cases rule: bind_cases)
      case (1 e s)
      then show ?thesis by (simp add: read_field_no_abort)
    next
      case b: (2 x2)
      obtain a0 a1 s2 where x2: "x2 = (a0, a1, s2)" by (cases x2)
      from b(2) [unfolded x2 prod.case] assms(2) show ?thesis
      proof (cases rule: bind_cases)
        case (1 e s)
        then show ?thesis by (simp add: read_field_no_abort)
      next
        case c: (2 x3)
        obtain a2 a3 s3 where x3: "x3 = (a2, a3, s3)" by (cases x3)
        from c(2) have "bind (read_field (addressed (hex2 t0 t1) a0 a1 a2 a3 s3)) (\<lambda>(y0, y1, s6).
            Return (hex2 t0 t1, hex2 y0 y1, hex2 t0 t1 + hex2 a0 a1 + hex2 a2 a3 + hex2 y0 y1, s6)) = r"
          unfolding x3 prod.case Let_def addressed_def .
        from this assms(2) show ?thesis
        proof (cases rule: bind_cases)
          case (1 e s)
          then show ?thesis by (simp add: read_field_no_abort)
        next
          case d: (2 x4)
          obtain y0 y1 s4 where x4: "x4 = (y0, y1, s4)" by (cases x4)
          from d(2) x4 have "r = Return (hex2 t0 t1, hex2 y0 y1,
              hex2 t0 t1 + hex2 a0 a1 + hex2 a2 a3 + hex2 y0 y1, s4)" by simp
          with 2(1) b(1) c(1) d(1) x1 x2 x3 x4 show ?thesis by (intro that) simp_all
        qed
      qed
    qed
  qed
qed

lemma addressed_fields:
  "serial (addressed ll a0 a1 a2 a3 s) = serial s"
  "type (addressed ll a0 a1 a2 a3 s) = type s"
  "progSize (addressed ll a0 a1 a2 a3 s) = progSize s"
  "timeout (addressed ll a0 a1 a2 a3 s) = timeout s"
  "clock (addressed ll a0 a1 a2 a3 s) = clock s"
  "startTime (addressed ll a0 a1 a2 a3 s) = startTime s"
  "miso (addressed ll a0 a1 a2 a3 s) = miso s"
  "mosi (addressed ll a0 a1 a2 a3 s) = mosi s"
  "data (addressed ll a0 a1 a2 a3 s) = data s"
  by (simp_all add: addressed_def Let_def)

lemma read_header_counts:
  assumes "read_header s = Return (ll, ty, cs, s')"
  shows "same_counts s s'"
proof -
  have "Return (ll, ty, cs, s') \<noteq> Diverges" by simp
  with assms show ?thesis
  proof (cases rule: read_header_cases)
    case (1 t0 t1 s1 a0 a1 s2 a2 a3 s3 y0 y1 s4)
    from read_field_counts [OF 1(1)] read_field_counts [OF 1(2)] read_field_counts [OF 1(3)]
      read_field_counts [OF 1(4)] 1(5)
    show ?thesis by (simp add: same_counts_def addressed_fields)
  qed
qed

lemma record_body_cases:
  assumes "record_body words s = r" and "r \<noteq> Diverges"
  obtains (payload) ll ty cs s1 e s2 where "read_header s = Return (ll, ty, cs, s1)"
      and "payload words ll ty cs s1 = Abort e s2" and "r = Abort e s2"
  | (tail) ll ty cs s1 cs2 s2 where "read_header s = Return (ll, ty, cs, s1)"
      and "payload words ll ty cs s1 = Return (cs2, s2)" and "closing ty cs2 s2 = r"
proof -
  from assms [unfolded record_body_eq] show ?thesis
  proof (cases rule: bind_cases)
    case (1 e s)
    then show ?thesis by (simp add: read_header_no_abort)
  next
    case (2 x)
    obtain ll ty cs s1 where x: "x = (ll, ty, cs, s1)" by (cases x)
    from 2(2) have "bind (payload words ll ty cs s1) (\<lambda>(checkSum', s2).
        closing ty checkSum' s2) = r"
      unfolding x prod.case .
    from this assms(2) show ?thesis
    proof (cases rule: bind_cases)
      case (1 e s2)
      with 2(1) x show ?thesis by (intro payload) simp_all
    next
      case b: (2 y)
      obtain cs2 s2 where y: "y = (cs2, s2)" by (cases y)
      with 2(1) x b show ?thesis by (intro tail) simp_all
    qed
  qed
qed

lemma read_record_cases:
  assumes "read_record words s = r" and "r \<noteq> Diverges"
  obtains (wait) s1 where "wait_serial (s\<lparr>startTime := clock s\<rparr>) = Abort TimeOut s1"
      and "r = Abort TimeOut s1"
  | (colon) s1 s2 where "wait_serial (s\<lparr>startTime := clock s\<rparr>) = Return s1"
      and "colon s1 = Abort HexError s2" and "r = Abort HexError s2"
  | (body) s1 s2 where "wait_serial (s\<lparr>startTime := clock s\<rparr>) = Return s1"
      and "colon s1 = Return s2" and "record_body words s2 = r"
proof -
  from assms [unfolded read_record_def] show ?thesis
  proof (cases rule: bind_cases)
    case (1 e s1)
    with wait_serial_abort [OF 1(1)] show ?thesis by (intro wait) simp_all
  next
    case (2 s1)
    from 2(2) assms(2) show ?thesis
    proof (cases rule: bind_cases)
      case (1 e s2)
      with colon_abort [OF 1(1)] 2(1) show ?thesis by (intro colon) simp_all
    next
      case b: (2 s2)
      with 2(1) show ?thesis by (intro body)
    qed
  qed
qed

lemma payload_Return:
  assumes "payload words ll ty cs s = Return (cs2, s2)" and "progSize s \<le> capacity (type s)"
  shows "type s2 = type s \<and> progSize s2 \<le> capacity (type s)"
proof (cases "ty = 2")
  case True
  with assms(1) have "skip_loop (Suc (unat ll)) cs s = Return (cs2, s2)"
    by (simp add: payload_def del: skip_loop.simps)
  from skip_loop_counts [OF this] assms(2) show ?thesis by (simp add: same_counts_def)
next
  case False
  with assms(1) have "data_loop words (ty = 1) (unat ll) cs s = Return (cs2, s2)"
    by (simp add: payload_def)
  from data_loop_Return [OF this assms(2)] show ?thesis by simp
qed

lemma payload_TooLarge:
  assumes "payload words ll ty cs s = Abort TooLarge s'" and "progSize s \<le> capacity (type s)"
  shows "type s' = type s \<and> progSize s' = Suc (capacity (type s))"
proof (cases "ty = 2")
  case True
  with assms(1) show ?thesis
    by (simp add: payload_def skip_loop_no_abort del: skip_loop.simps)
next
  case False
  with assms(1) have "data_loop words (ty = 1) (unat ll) cs s = Abort TooLarge s'"
    by (simp add: payload_def)
  from data_loop_TooLarge [OF this assms(2)] show ?thesis .
qed

lemma closing_counts:
  assumes "closing ty cs s = Return (fe, s')"
  shows "same_counts s s'"
proof (cases "ty = 2")
  case True
  with assms show ?thesis by (simp add: closing_def same_counts_def)
next
  case False
  with assms have "check_tail (ty = 1) cs s = Return (fe, s')" by (simp add: closing_def)
  then show ?thesis by (rule check_tail_counts)
qed

lemma record_body_capacity:
  assumes "progSize s \<le> capacity (type s)"
  shows "record_body words s = Return (fe, s') \<Longrightarrow>
           type s' = type s \<and> progSize s' \<le> capacity (type s)"
    and "record_body words s = Abort TooLarge s' \<Longrightarrow>
           type s' = type s \<and> progSize s' = Suc (capacity (type s))"
proof -
  {
    fix r
    assume r: "record_body words s = r" and nd: "r \<noteq> Diverges"
    then have "(\<forall>fe s'. r = Return (fe, s') \<longrightarrow> type s' = type s \<and> progSize s' \<le> capacity (type s))
      \<and> (\<forall>s'. r = Abort TooLarge s' \<longrightarrow> type s' = type s \<and> progSize s' = Suc (capacity (type s)))"
    proof (cases rule: record_body_cases)
      case (payload ll ty cs s1 e s2)
      from read_header_counts [OF payload(1)] assms
      have j: "progSize s1 \<le> capacity (type s1)" and t: "type s1 = type s"
        by (simp_all add: same_counts_def)
      show ?thesis
      proof (cases "e = TooLarge")
        case True
        with payload(2) have "payload words ll ty cs s1 = Abort TooLarge s2" by simp
        from payload_TooLarge [OF this j] payload(3) True t show ?thesis by simp
      next
        case False
        with payload(3) show ?thesis by simp
      qed
    next
      case (tail ll ty cs s1 cs2 s2)
      from read_header_counts [OF tail(1)] assms
      have j: "progSize s1 \<le> capacity (type s1)" and t: "type s1 = type s"
        by (simp_all add: same_counts_def)
      note p = payload_Return [OF tail(2) j]
      show ?thesis
      proof (intro conjI allI impI)
        fix fe s' assume "r = Return (fe, s')"
        with tail(3) have "closing ty cs2 s2 = Return (fe, s')" by simp
        from closing_counts [OF this] p t
        show "type s' = type s" "progSize s' \<le> capacity (type s)"
          by (simp_all add: same_counts_def)
      next
        fix s' assume "r = Abort TooLarge s'"
        with tail(3) have "closing ty cs2 s2 = Abort TooLarge s'" by simp
        then have False by (auto dest: closing_abort)
        then show "type s' = type s" "progSize s' = Suc (capacity (type s))" by simp_all
      qed
    qed
  }
  note main = this
  show "record_body words s = Return (fe, s') \<Longrightarrow>
           type s' = type s \<and> progSize s' \<le> capacity (type s)"
    using main [of "Return (fe, s')"] by simp
  show "record_body words s = Abort TooLarge s' \<Longrightarrow>
           type s' = type s \<and> progSize s' = Suc (capacity (type s))"
    using main [of "Abort TooLarge s'"] by simp
qed

lemma read_record_capacity:
  assumes "progSize s \<le> capacity (type s)"
  shows "read_record words s = Return (fe, s') \<Longrightarrow>
           type s' = type s \<and> progSize s' \<le> capacity (type s)"
    and "read_record words s = Abort TooLarge s' \<Longrightarrow>
           type s' = type s \<and> progSize s' = Suc (capacity (type s))"
proof -
  {
    fix r
    assume r: "read_record words s = r" and nd: "r \<noteq> Diverges"
    then have "(\<forall>fe s'. r = Return (fe, s') \<longrightarrow> type s' = type s \<and> progSize s' \<le> capacity (type s))
      \<and> (\<forall>s'. r = Abort TooLarge s' \<longrightarrow> type s' = type s \<and> progSize s' = Suc (capacity (type s)))"
    proof (cases rule: read_record_cases)
      case (wait s1)
      then show ?thesis by simp
    next
      case (colon s1 s2)
      then show ?thesis by simp
    next
      case (body s1 s2)
      from wait_serial_counts [OF body(1)] colon_counts [OF body(2)] assms
      have j: "progSize s2 \<le> capacity (type s2)" and t: "type s2 = type s"
        by (simp_all add: same_counts_def)
      from record_body_capacity [OF j] body(3) t show ?thesis by auto
    qed
  }
  note main = this
  show "read_record words s = Return (fe, s') \<Longrightarrow>
           type s' = type s \<and> progSize s' \<le> capacity (type s)"
    using main [of "Return (fe, s')"] by simp
  show "read_record words s = Abort TooLarge s' \<Longrightarrow>
           type s' = type s \<and> progSize s' = Suc (capacity (type s))"
    using main [of "Abort TooLarge s'"] by simp
qed

lemma records_capacity:
  "progSize s \<le> capacity (type s) \<Longrightarrow>
   (records words s = Return s' \<longrightarrow> type s' = type s \<and> progSize s' \<le> capacity (type s))
   \<and> (records words s = Abort TooLarge s' \<longrightarrow> type s' = type s \<and> progSize s' = Suc (capacity (type s)))"
proof (induction words s rule: records.induct)
  case (1 words s)
  show ?case
  proof (cases "read_record words s")
    case Diverges
    then show ?thesis by (subst records.simps, subst records.simps) simp
  next
    case (Abort e s1)
    have "records words s = Abort e s1" using Abort by (subst records.simps) simp
    with read_record_capacity(2) [OF 1(2), of words s'] Abort show ?thesis by auto
  next
    case (Return x)
    obtain fe s1 where x: "x = (fe, s1)" by (cases x)
    note rr = read_record_capacity(1) [OF 1(2) Return [unfolded x]]
    show ?thesis
    proof (cases fe)
      case True
      have "records words s = Return s1" using Return x True by (subst records.simps) simp
      with rr show ?thesis by auto
    next
      case False
      have e: "records words s = records words s1" using Return x False by (subst records.simps) simp
      from rr have "progSize s1 \<le> capacity (type s1)" by simp
      from 1(1) [OF Return x [symmetric] False this] rr show ?thesis unfolding e by simp
    qed
  qed
qed

lemma writeProgram_capacity:
  "(writeProgram s = Return s' \<longrightarrow> type s' = type s \<and> progSize s' \<le> capacity (type s))
   \<and> (writeProgram s = Abort TooLarge s' \<longrightarrow> type s' = type s \<and> progSize s' = Suc (capacity (type s)))"
proof (cases "eraseChip (s\<lparr>progSize := 0, currentByte := 0\<rparr>)")
  case Diverges
  then show ?thesis by (simp add: writeProgram_def Let_def bind_def)
next
  case (Abort e s1)
  then show ?thesis by (simp add: nvm_wait_no_abort eraseChip_def Let_def)
next
  case (Return s1)
  from eraseChip_counts [OF Return]
  have t: "type s1 = type s" and p: "progSize s1 = 0" by (simp_all add: same_counts_def)
  then have j: "progSize s1 \<le> capacity (type s1)" by simp
  have "writeProgram s = records (words_of (type s1)) s1"
    using Return by (simp add: writeProgram_def Let_def bind_def)
  with records_capacity [OF j, of "words_of (type s1)" s'] t show ?thesis by simp
qed

section \<open>Running the loader on a given input\<close>

definition chars :: "string \<Rightarrow> byte option list" where
  "chars cs = map (\<lambda>c. Some (of_char c)) cs"

lemma read_header_eq:
  "read_header s =
     bind (read_field s) (\<lambda>(t0, t1, s1).
     bind (read_field s1) (\<lambda>(a0, a1, s2).
     bind (read_field s2) (\<lambda>(a2, a3, s3).
     bind (read_field (addressed (hex2 t0 t1) a0 a1 a2 a3 s3)) (\<lambda>(y0, y1, s6).
       Return (hex2 t0 t1, hex2 y0 y1, hex2 t0 t1 + hex2 a0 a1 + hex2 a2 a3 + hex2 y0 y1, s6)))))"
  by (simp add: read_header_def addressed_def Let_def)

lemma read_header_Some:
  assumes "serial s = Some t0 # Some t1 # Some a0 # Some a1 # Some a2 # Some a3 # Some y0 # Some y1 # xs"
  shows "read_header s =
     Return (hex2 t0 t1, hex2 y0 y1, hex2 t0 t1 + hex2 a0 a1 + hex2 a2 a3 + hex2 y0 y1,
             (addressed (hex2 t0 t1) a0 a1 a2 a3 s)\<lparr>serial := xs\<rparr>)"
proof -
  let ?s1 = "s\<lparr>serial := Some a0 # Some a1 # Some a2 # Some a3 # Some y0 # Some y1 # xs\<rparr>"
  let ?s2 = "s\<lparr>serial := Some a2 # Some a3 # Some y0 # Some y1 # xs\<rparr>"
  let ?s3 = "s\<lparr>serial := Some y0 # Some y1 # xs\<rparr>"
  have 1: "read_field s = Return (t0, t1, ?s1)"
    using assms by (rule read_field_Some)
  have 2: "read_field ?s1 = Return (a0, a1, ?s2)"
    using read_field_Some [of ?s1 a0 a1 "Some a2 # Some a3 # Some y0 # Some y1 # xs"] by simp
  have 3: "read_field ?s2 = Return (a2, a3, ?s3)"
    using read_field_Some [of ?s2 a2 a3 "Some y0 # Some y1 # xs"] by simp
  have 4: "read_field (addressed (hex2 t0 t1) a0 a1 a2 a3 ?s3)
      = Return (y0, y1, (addressed (hex2 t0 t1) a0 a1 a2 a3 ?s3)\<lparr>serial := xs\<rparr>)"
    by (rule read_field_Some) (simp add: addressed_fields)
  have 5: "(addressed (hex2 t0 t1) a0 a1 a2 a3 ?s3)\<lparr>serial := xs\<rparr>
      = (addressed (hex2 t0 t1) a0 a1 a2 a3 s)\<lparr>serial := xs\<rparr>"
    by (simp add: addressed_def Let_def)
  show ?thesis
    unfolding read_header_eq
    by (simp only: 1 2 3 4 5 bind_def result.case prod.case)
qed

lemma read_record_Some:
  assumes "serial s = Some 0x3A # Some t0 # Some t1 # Some a0 # Some a1 # Some a2 # Some a3
      # Some y0 # Some y1 # xs"
  shows "read_record words s =
     bind (payload words (hex2 t0 t1) (hex2 y0 y1)
             (hex2 t0 t1 + hex2 a0 a1 + hex2 a2 a3 + hex2 y0 y1)
             ((addressed (hex2 t0 t1) a0 a1 a2 a3 (s\<lparr>startTime := clock s\<rparr>))\<lparr>serial := xs\<rparr>))
          (\<lambda>(cs2, s2). closing (hex2 y0 y1) cs2 s2)"
proof -
  let ?s0 = "s\<lparr>startTime := clock s\<rparr>"
  let ?s1 = "?s0\<lparr>serial := Some t0 # Some t1 # Some a0 # Some a1 # Some a2 # Some a3
      # Some y0 # Some y1 # xs\<rparr>"
  have w: "wait_serial ?s0 = Return ?s0"
    using assms by (intro wait_serial_Some) simp
  have c: "colon ?s0 = Return ?s1"
    using assms by (intro colon_Some) simp
  have h: "read_header ?s1 = Return (hex2 t0 t1, hex2 y0 y1, hex2 t0 t1 + hex2 a0 a1 + hex2 a2 a3 + hex2 y0 y1,
             (addressed (hex2 t0 t1) a0 a1 a2 a3 ?s1)\<lparr>serial := xs\<rparr>)"
    by (rule read_header_Some) simp
  have e: "(addressed (hex2 t0 t1) a0 a1 a2 a3 ?s1)\<lparr>serial := xs\<rparr>
      = (addressed (hex2 t0 t1) a0 a1 a2 a3 ?s0)\<lparr>serial := xs\<rparr>"
    by (simp add: addressed_def Let_def)
  show ?thesis
    unfolding read_record_def record_body_eq
    by (simp add: w c h e bind_def)
qed

lemma data_byte_Some:
  "serial s = Some c0 # Some c1 # xs \<Longrightarrow>
   data_byte words fileEnd checkSum s = store_byte words fileEnd checkSum (hex2 c0 c1) (s\<lparr>serial := xs\<rparr>)"
  by (simp add: data_byte_def wait_serial_Some read_field_Some bind_def)


lemma ucast_add_down: "(ucast (x + y :: 16 word) :: byte) = ucast x + ucast y"
proof -
  have d: "is_down (ucast :: 16 word \<Rightarrow> byte)" by (simp add: is_down)
  have "x + y = word_of_int (uint x) + word_of_int (uint y)" by (simp only: word_of_int_uint)
  also have "\<dots> = word_of_int (uint x + uint y)" by (rule wi_hom_add)
  finally have "(ucast (x + y) :: byte) = ucast (word_of_int (uint x + uint y) :: 16 word)"
    by (rule arg_cong)
  also have "\<dots> = word_of_int (uint x + uint y)" by (rule ucast_down_wi [OF d])
  also have "\<dots> = word_of_int (uint x) + word_of_int (uint y)" by (rule wi_hom_add [symmetric])
  also have "\<dots> = ucast x + ucast y" by (simp only: ucast_eq)
  finally show ?thesis .
qed

lemma ucast_push_down: "(ucast (push_bit 4 (x :: 16 word)) :: byte) = push_bit 4 (ucast x)"
  by (rule bit_word_eqI) (auto simp: bit_simps)

lemma ucast_scast_byte: "(ucast (scast (a :: byte) :: 16 word) :: byte) = a"
  by (rule bit_word_eqI) (auto simp: bit_simps)

lemma hex_pair_value:
  "hex2 c0 c1 =
     (if c1 = 0 then hex_digit c0 else push_bit 4 (hex_digit c0) + hex_digit c1)"
  by (simp only: hex2_def hex_pair if_distrib [of fst] fst_conv if_distrib [of ucast]
      ucast_add_down ucast_push_down ucast_scast_byte)

lemma hex2_values:
  "hex2 0x30 0x30 = 0x00" "hex2 0x30 0x31 = 0x01" "hex2 0x30 0x32 = 0x02" "hex2 0x30 0x33 = 0x03"
  "hex2 0x41 0x41 = 0xAA" "hex2 0x35 0x33 = 0x53" "hex2 0x46 0x46 = 0xFF"
  by (simp_all add: hex_pair_value hex_digit_def)

lemma eof_record:
  assumes "serial s = chars '':00000001FF'' @ rest"
  shows "read_record words s = Return (True, s\<lparr>startTime := clock s, adrs := 0x4000, serial := rest\<rparr>)"
proof -
  have ser: "serial s = Some 0x3A # Some 0x30 # Some 0x30 # Some 0x30 # Some 0x30 # Some 0x30
      # Some 0x30 # Some 0x30 # Some 0x31 # (Some 0x46 # Some 0x46 # rest)"
    using assms by (simp add: chars_def)
  let ?s1 = "s\<lparr>startTime := clock s, adrs := 0x4000, serial := Some 0x46 # Some 0x46 # rest\<rparr>"
  have a: "fst (asciiHexToUShort 0x30 [0x30, 0x30, 0x30]) = 0"
    by (simp add: asciiHexToUShort_def hex_loop.simps hex_digit_def Let_def)
  have s1: "(addressed 0 0x30 0x30 0x30 0x30 (s\<lparr>startTime := clock s\<rparr>))
      \<lparr>serial := Some 0x46 # Some 0x46 # rest\<rparr> = ?s1"
    by (simp add: addressed_def a Let_def)
  have p: "payload words 0 1 1 ?s1 = Return (1, ?s1)"
    by (simp add: payload_def)
  have c: "check_tail True 1 ?s1 = Return (True, s\<lparr>startTime := clock s, adrs := 0x4000, serial := rest\<rparr>)"
    by (subst check_tail_Some [where ?c0.0 = "0x46" and ?c1.0 = "0x46" and xs = rest])
       (simp_all add: hex2_values)
  show ?thesis
    unfolding read_record_Some [OF ser] hex2_values s1
    by (simp add: p c bind_def closing_values)
qed

text \<open>The frames and idle transfers of \<^verbatim>\<open>eraseChip\<close> when the first status poll finds the
  target ready.\<close>

definition erase_traffic :: "byte list" where
  "erase_traffic =
     concat (map tpi_frame
       [SSTPRL, 0x01, SSTPRH, 0x40, 0xF3, NVM_CHIP_ERASE,
        SSTp, 0xAA, SSTp, 0xAA, SSTp, 0xAA, SSTp, 0xAA, 0x72]) @ [0xff, 0xff]"

lemma io_opcodes:
  "0x90 OR (NVMCMD AND 0x0F) OR push_bit 1 (NVMCMD AND 0x30) = 0xF3"
  "0x10 OR (NVMCSR AND 0x0F) OR push_bit 1 (NVMCSR AND 0x30) = 0x72"
  by (simp_all add: NVMCMD_def NVMCSR_def)

lemma eraseChip_ready:
  assumes "drop 30 (miso s) = tpi_frame v @ r" and "v AND 0x80 = 0"
  shows "eraseChip s = Return (s\<lparr>adrs := 0x4001, miso := r, mosi := mosi s @ erase_traffic\<rparr>)"
proof -
  have lo: "ucast (0x4001 AND 0xff :: 16 word) = (0x01 :: byte)"
    and hi: "ucast (drop_bit 8 (0x4001 :: 16 word) AND 0xff) = (0x40 :: byte)" by simp_all
  let ?m = "mosi s @ concat (map tpi_frame
       [SSTPRL, 0x01, SSTPRH, 0x40, 0xF3, NVM_CHIP_ERASE,
        SSTp, 0xAA, SSTp, 0xAA, SSTp, 0xAA, SSTp, 0xAA])"
  let ?s6 = "s\<lparr>adrs := 0x4001, miso := drop 28 (miso s), mosi := ?m\<rparr>"
  have s6: "tpi_send_byte 0xAA (tpi_send_byte SSTp (tpi_send_byte 0xAA (tpi_send_byte SSTp
     (tpi_send_byte 0xAA (tpi_send_byte SSTp (tpi_send_byte 0xAA (tpi_send_byte SSTp
       (writeIO NVMCMD NVM_CHIP_ERASE (setPointer 0x4001 s))))))))) = ?s6"
    unfolding setPointer_def writeIO_def Let_def lo hi io_opcodes
    by (simp add: send_state)
  have snd: "tpi_send_byte 0x72 ?s6
      = s\<lparr>adrs := 0x4001, miso := tpi_frame v @ r, mosi := ?m @ tpi_frame 0x72\<rparr>"
    using assms(1) by (simp add: send_state)
  have rd: "readIO NVMCSR ?s6
      = Return (v, s\<lparr>adrs := 0x4001, miso := r, mosi := ?m @ tpi_frame 0x72 @ [0xff, 0xff]\<rparr>)"
    unfolding readIO_def io_opcodes snd
    by (subst recv_frame [where d = v and r = r]) simp_all
  have "nvm_wait ?s6 = Return (s\<lparr>adrs := 0x4001, miso := r, mosi := ?m @ tpi_frame 0x72 @ [0xff, 0xff]\<rparr>)"
    using assms(2) by (subst nvm_wait.simps, subst rd) simp
  moreover have "?m @ tpi_frame 0x72 @ [0xff, 0xff] = mosi s @ erase_traffic"
    by (simp add: erase_traffic_def)
  ultimately show ?thesis
    unfolding eraseChip_def Let_def s6 by simp
qed

lemma data_byte_keep:
  assumes "serial s = Some c0 # Some c1 # xs"
    and "Suc (progSize s) \<le> capacity (type s)"
    and "Suc (currentByte s) \<noteq> 2 * words"
  shows "data_byte words False cs s = Return (cs + hex2 c0 c1, stored (hex2 c0 c1) (s\<lparr>serial := xs\<rparr>))"
  using assms
  by (simp add: data_byte_Some store_byte_eq padded_def stored_def)

lemma hex2_more:
  "hex2 0x31 0x31 = 0x11" "hex2 0x32 0x32 = 0x22" "hex2 0x33 0x33 = 0x33" "hex2 0x39 0x37 = 0x97"
  by (simp_all add: hex_pair_value hex_digit_def)

lemma run_three_bytes:
  "writeProgram (init\<lparr>type := Tiny20, serial := chars '':0300000011223397:00000001FF'',
                      miso := replicate 30 0xff @ tpi_frame 0\<rparr>)
     = Return (init\<lparr>type := Tiny20, progSize := 3, currentByte := 3,
                    data := [0x11, 0x22, 0x33] @ replicate 13 0, adrs := 0x4000,
                    serial := [], miso := [], mosi := erase_traffic\<rparr>)"
proof -
  let ?S = "init\<lparr>type := Tiny20, serial := chars '':0300000011223397:00000001FF'',
                      miso := replicate 30 0xff @ tpi_frame 0\<rparr>"
  let ?eof = "chars '':00000001FF''"
  let ?e = "init\<lparr>type := Tiny20, serial := chars '':0300000011223397:00000001FF'',
      adrs := 0x4001, miso := [], mosi := erase_traffic\<rparr>"
  have e: "eraseChip (?S\<lparr>progSize := 0, currentByte := 0\<rparr>) = Return ?e"
    by (subst eraseChip_ready [where v = 0 and r = "[]"]) (simp_all add: init_def)
  have w: "words_of (type ?e) = 2" by (simp add: words_of_def Tiny20_def Tiny4_5_def)
  have cap: "capacity Tiny20 = 2048" by (simp add: capacity_def Tiny20_def Tiny4_5_def)
  \<comment> \<open>the data record\<close>
  let ?p = "\<lambda>xs. init\<lparr>type := Tiny20, adrs := 0x4000, mosi := erase_traffic, serial := xs\<rparr>"
  have ser: "serial ?e = Some 0x3A # Some 0x30 # Some 0x33 # Some 0x30 # Some 0x30 # Some 0x30
      # Some 0x30 # Some 0x30 # Some 0x30
      # (Some 0x31 # Some 0x31 # Some 0x32 # Some 0x32 # Some 0x33 # Some 0x33 # Some 0x39 # Some 0x37 # ?eof)"
    by (simp add: chars_def)
  have a: "fst (asciiHexToUShort 0x30 [0x30, 0x30, 0x30]) = 0"
    by (simp add: asciiHexToUShort_def hex_loop.simps hex_digit_def Let_def)
  have s1: "(addressed 3 0x30 0x30 0x30 0x30 (?e\<lparr>startTime := clock ?e\<rparr>))
      \<lparr>serial := Some 0x31 # Some 0x31 # Some 0x32 # Some 0x32 # Some 0x33 # Some 0x33
         # Some 0x39 # Some 0x37 # ?eof\<rparr>
      = ?p (Some 0x31 # Some 0x31 # Some 0x32 # Some 0x32 # Some 0x33 # Some 0x33
         # Some 0x39 # Some 0x37 # ?eof)"
    by (simp add: addressed_def a Let_def init_def)
  let ?q1 = "stored 0x11 (?p (Some 0x32 # Some 0x32 # Some 0x33 # Some 0x33 # Some 0x39 # Some 0x37 # ?eof))"
  let ?q2 = "stored 0x22 (?q1\<lparr>serial := Some 0x33 # Some 0x33 # Some 0x39 # Some 0x37 # ?eof\<rparr>)"
  let ?q3 = "stored 0x33 (?q2\<lparr>serial := Some 0x39 # Some 0x37 # ?eof\<rparr>)"
  have b1: "data_byte 2 False 3 (?p (Some 0x31 # Some 0x31 # Some 0x32 # Some 0x32 # Some 0x33 # Some 0x33
         # Some 0x39 # Some 0x37 # ?eof)) = Return (3 + 0x11, ?q1)"
    by (subst data_byte_keep [where ?c0.0 = "0x31" and ?c1.0 = "0x31"
          and xs = "Some 0x32 # Some 0x32 # Some 0x33 # Some 0x33 # Some 0x39 # Some 0x37 # ?eof"])
       (simp_all add: cap hex2_more init_def)
  have b2: "data_byte 2 False (3 + 0x11) ?q1 = Return (3 + 0x11 + 0x22, ?q2)"
    by (subst data_byte_keep [where ?c0.0 = "0x32" and ?c1.0 = "0x32"
          and xs = "Some 0x33 # Some 0x33 # Some 0x39 # Some 0x37 # ?eof"])
       (simp_all add: cap hex2_more init_def stored_def)
  have b3: "data_byte 2 False (3 + 0x11 + 0x22) ?q2 = Return (3 + 0x11 + 0x22 + 0x33, ?q3)"
    by (subst data_byte_keep [where ?c0.0 = "0x33" and ?c1.0 = "0x33"
          and xs = "Some 0x39 # Some 0x37 # ?eof"])
       (simp_all add: cap hex2_more init_def stored_def)
  have l: "data_loop 2 False (Suc (Suc (Suc 0))) 3 (?p (Some 0x31 # Some 0x31 # Some 0x32 # Some 0x32 # Some 0x33 # Some 0x33
         # Some 0x39 # Some 0x37 # ?eof)) = Return (3 + 0x11 + 0x22 + 0x33, ?q3)"
    by (simp only: data_loop.simps b1 b2 b3 bind_def result.case prod.case)
  let ?r = "?q3\<lparr>startTime := clock ?q3, serial := ?eof\<rparr>"
  have c: "check_tail False (3 + 0x11 + 0x22 + 0x33) ?q3 = Return (False, ?r)"
    by (subst check_tail_Some [where ?c0.0 = "0x39" and ?c1.0 = "0x37" and xs = ?eof])
       (simp_all add: hex2_more stored_def)
  have u: "unat (3 :: byte) = Suc (Suc (Suc 0))" by simp
  have "payload 2 3 0 (3 + 0 + 0 + 0) (?p (Some 0x31 # Some 0x31 # Some 0x32 # Some 0x32 # Some 0x33 # Some 0x33
         # Some 0x39 # Some 0x37 # ?eof))
      = data_loop 2 False (unat (3 :: byte)) 3 (?p (Some 0x31 # Some 0x31 # Some 0x32 # Some 0x32 # Some 0x33 # Some 0x33
         # Some 0x39 # Some 0x37 # ?eof))"
    by (simp add: payload_def)
  then have pl: "payload 2 3 0 (3 + 0 + 0 + 0) (?p (Some 0x31 # Some 0x31 # Some 0x32 # Some 0x32 # Some 0x33 # Some 0x33
         # Some 0x39 # Some 0x37 # ?eof)) = Return (3 + 0x11 + 0x22 + 0x33, ?q3)"
    by (simp only: u l)
  have r1: "read_record 2 ?e = Return (False, ?r)"
    unfolding read_record_Some [OF ser] hex2_values s1
    by (simp only: pl c bind_def result.case prod.case closing_values)
  \<comment> \<open>the end-of-file record\<close>
  have r2: "read_record 2 ?r = Return (True, ?r\<lparr>startTime := clock ?r, adrs := 0x4000, serial := []\<rparr>)"
    by (rule eof_record) (simp add: stored_def)
  have "records 2 ?e = Return (?r\<lparr>startTime := clock ?r, adrs := 0x4000, serial := []\<rparr>)"
    by (subst records.simps, simp only: r1 result.case prod.case if_False,
        subst records.simps, simp only: r2 result.case prod.case if_True)
  moreover have "?r\<lparr>startTime := clock ?r, adrs := 0x4000, serial := []\<rparr>
      = init\<lparr>type := Tiny20, progSize := 3, currentByte := 3,
                    data := [0x11, 0x22, 0x33] @ replicate 13 0, adrs := 0x4000,
                    serial := [], miso := [], mosi := erase_traffic\<rparr>"
    by (simp add: stored_def init_def numeral_eq_Suc)
  ultimately show ?thesis
    unfolding writeProgram_def Let_def e by (simp only: bind_def result.case w)
qed

section \<open>A target that accepts every write\<close>

text \<open>
  What the programmer puts on the line during one flush of the group \<open>g\<close> at address
  \<open>a\<close> when the first status poll finds the target ready (\<open>flush_traffic\<close>), and what a
  target puts on the line meanwhile that is ready at the first poll and reads back the bytes
  of the group (\<open>flush_reply\<close>): idle while the programmer sends, a frame with the status
  0 after the load of \<^verbatim>\<open>NVMCSR\<close>, and a frame with the byte after each of the loads that
  verify the group.
\<close>

definition pointer_frames :: "16 word \<Rightarrow> byte list" where
  "pointer_frames a =
     concat (map tpi_frame [SSTPRL, ucast (a AND 0xff), SSTPRH, ucast (drop_bit 8 a AND 0xff)])"

fun word_frames :: "byte list \<Rightarrow> byte list" where
  "word_frames (lo # hi # ds) =
     concat (map tpi_frame [SSTp, lo, SSTp, hi]) @ [0xff, 0xff] @ word_frames ds"
| "word_frames ds = []"

definition flush_traffic :: "16 word \<Rightarrow> byte list \<Rightarrow> byte list" where
  "flush_traffic a g =
     pointer_frames a @ tpi_frame 0xF3 @ tpi_frame NVM_WORD_WRITE @ word_frames g
     @ tpi_frame 0x72 @ [0xff, 0xff]
     @ tpi_frame 0xF3 @ tpi_frame NVM_NOP @ [0xff, 0xff]
     @ pointer_frames a @ concat (map (\<lambda>b. tpi_frame SLDp @ [0xff, 0xff]) g)"

definition flush_reply :: "nat \<Rightarrow> byte list \<Rightarrow> byte list" where
  "flush_reply words g =
     replicate (14 + 10 * words) 0xff @ tpi_frame 0 @ replicate 14 0xff
     @ concat (map (\<lambda>b. [0xff, 0xff] @ tpi_frame b) g)"

lemma idle2_state: "idle2 s = s\<lparr>miso := drop 2 (miso s), mosi := mosi s @ [0xff, 0xff]\<rparr>"
  by (cases "miso s"; cases "tl (miso s)") (auto simp: idle2_def SPI_transfer_def)

lemma setPointer_state:
  "setPointer a s = s\<lparr>adrs := a, miso := drop 8 (miso s), mosi := mosi s @ pointer_frames a\<rparr>"
  by (simp add: setPointer_def Let_def send_state pointer_frames_def)

lemma writeIO_state:
  "writeIO NVMCMD v s = s\<lparr>miso := drop 4 (miso s), mosi := mosi s @ tpi_frame 0xF3 @ tpi_frame v\<rparr>"
  unfolding writeIO_def io_opcodes by (simp add: send_state)

lemma write_words_state:
  "i + 2 * k \<le> length (data s) \<Longrightarrow>
   write_words i (i + 2 * k) s
     = s\<lparr>miso := drop (10 * k) (miso s),
          mosi := mosi s @ word_frames (take (2 * k) (drop i (data s)))\<rparr>"
proof (induction k arbitrary: i s)
  case 0
  then show ?case by (subst write_words.simps) simp
next
  case (Suc k)
  let ?d = "data s"
  let ?s = "s\<lparr>miso := drop 10 (miso s),
      mosi := mosi s @ concat (map tpi_frame [SSTp, ?d ! i, SSTp, ?d ! (i + 1)]) @ [0xff, 0xff]\<rparr>"
  have st: "idle2 (tpi_send_byte (?d ! (i + 1)) (tpi_send_byte SSTp
      (tpi_send_byte (?d ! i) (tpi_send_byte SSTp s)))) = ?s"
    by (simp add: send_state idle2_state)
  have "write_words i (i + 2 * Suc k) s = write_words (i + 2) (i + 2 + 2 * k) ?s"
    by (subst write_words.simps) (simp add: Let_def send_state idle2_state)
  also have "\<dots> = ?s\<lparr>miso := drop (10 * k) (miso ?s),
      mosi := mosi ?s @ word_frames (take (2 * k) (drop (i + 2) (data ?s)))\<rparr>"
    by (rule Suc.IH) (use Suc.prems in simp)
  also have "\<dots> = s\<lparr>miso := drop (10 * Suc k) (miso s),
      mosi := mosi s @ word_frames (take (2 * Suc k) (drop i (data s)))\<rparr>"
  proof -
    from Suc.prems have l: "i < length ?d" "Suc i < length ?d" by simp_all
    have "drop i ?d = ?d ! i # ?d ! Suc i # drop (i + 2) ?d"
      using l by (simp add: Cons_nth_drop_Suc)
    then have "word_frames (take (2 * Suc k) (drop i ?d))
        = concat (map tpi_frame [SSTp, ?d ! i, SSTp, ?d ! (i + 1)]) @ [0xff, 0xff]
          @ word_frames (take (2 * k) (drop (i + 2) ?d))"
      by simp
    then show ?thesis by (simp add: add.commute)
  qed
  finally show ?case .
qed

lemma nvm_wait_ready:
  assumes "drop 2 (miso s) = tpi_frame v @ r" and "v AND 0x80 = 0"
  shows "nvm_wait s = Return (s\<lparr>miso := r, mosi := mosi s @ tpi_frame 0x72 @ [0xff, 0xff]\<rparr>)"
proof -
  have snd: "tpi_send_byte 0x72 s = s\<lparr>miso := tpi_frame v @ r, mosi := mosi s @ tpi_frame 0x72\<rparr>"
    using assms(1) by (simp add: send_state)
  have rd: "readIO NVMCSR s
      = Return (v, s\<lparr>miso := r, mosi := mosi s @ tpi_frame 0x72 @ [0xff, 0xff]\<rparr>)"
    unfolding readIO_def io_opcodes snd
    by (subst recv_frame [where d = v and r = r]) simp_all
  show ?thesis
    using assms(2) by (subst nvm_wait.simps, subst rd) simp
qed

lemma verify_state:
  assumes "miso s = concat (map (\<lambda>b. [0xff, 0xff] @ tpi_frame b) (take k (drop c (data s)))) @ r"
    and "c + k \<le> length (data s)"
  shows "verify k c s
     = Return (s\<lparr>miso := r,
          mosi := mosi s @ concat (map (\<lambda>b. tpi_frame SLDp @ [0xff, 0xff]) (take k (drop c (data s))))\<rparr>)"
  using assms
proof (induction k arbitrary: c s)
  case 0
  then show ?case by simp
next
  case (Suc k)
  let ?d = "data s"
  from Suc.prems(2) have l: "c < length ?d" by simp
  then have dr: "drop c ?d = ?d ! c # drop (Suc c) ?d" by (simp add: Cons_nth_drop_Suc)
  let ?rest = "concat (map (\<lambda>b. [0xff, 0xff] @ tpi_frame b) (take k (drop (Suc c) ?d))) @ r"
  have m: "miso s = [0xff, 0xff] @ tpi_frame (?d ! c) @ ?rest"
    using Suc.prems(1) by (simp add: dr)
  let ?s1 = "s\<lparr>miso := tpi_frame (?d ! c) @ ?rest, mosi := mosi s @ tpi_frame SLDp\<rparr>"
  let ?s2 = "s\<lparr>miso := ?rest, mosi := mosi s @ tpi_frame SLDp @ [0xff, 0xff]\<rparr>"
  have s1: "tpi_send_byte SLDp s = ?s1" by (simp add: send_state m)
  have rc: "tpi_receive_byte ?s1 = Return (?d ! c, ?s2)"
    by (subst recv_frame [where d = "?d ! c" and r = ?rest]) simp_all
  have "verify (Suc k) c s = verify k (Suc c) ?s2"
    unfolding verify.simps s1 by (simp only: rc bind_def result.case prod.case) simp
  also have "\<dots> = Return (?s2\<lparr>miso := r,
      mosi := mosi ?s2 @ concat (map (\<lambda>b. tpi_frame SLDp @ [0xff, 0xff]) (take k (drop (Suc c) (data ?s2))))\<rparr>)"
    by (rule Suc.IH) (use Suc.prems(2) in simp_all)
  finally show ?case by (simp add: dr)
qed

lemma flush_state:
  assumes "miso s = flush_reply words (take (2 * words) (data s)) @ r"
    and "2 * words \<le> length (data s)"
  shows "flush words s
     = Return (s\<lparr>currentByte := 0, adrs := adrs s + of_nat (2 * words), miso := r,
          mosi := mosi s @ flush_traffic (adrs s) (take (2 * words) (data s))\<rparr>)"
proof -
  let ?g = "take (2 * words) (data s)"
  let ?v = "concat (map (\<lambda>b. [0xff, 0xff] @ tpi_frame b) ?g)"
  let ?s1 = "s\<lparr>currentByte := 0\<rparr>"
  let ?m3 = "mosi s @ pointer_frames (adrs s) @ tpi_frame 0xF3 @ tpi_frame NVM_WORD_WRITE"
  let ?s3 = "s\<lparr>currentByte := 0, miso := drop 12 (miso s), mosi := ?m3\<rparr>"
  have s3: "writeIO NVMCMD NVM_WORD_WRITE (setPointer (adrs ?s1) ?s1) = ?s3"
    by (simp add: setPointer_state writeIO_state)
  let ?s4 = "s\<lparr>currentByte := 0, miso := drop (12 + 10 * words) (miso s),
      mosi := ?m3 @ word_frames ?g\<rparr>"
  have s4: "write_words 0 (2 * words) ?s3 = ?s4"
    using write_words_state [of 0 words ?s3] assms(2) by (simp add: add.commute)
  have m4: "drop 2 (miso ?s4) = tpi_frame 0 @ replicate 14 0xff @ ?v @ r"
    by (simp add: assms(1) flush_reply_def)
  let ?m5 = "?m3 @ word_frames ?g @ tpi_frame 0x72 @ [0xff, 0xff]"
  let ?s5 = "s\<lparr>currentByte := 0, miso := replicate 14 0xff @ ?v @ r, mosi := ?m5\<rparr>"
  have s5: "nvm_wait ?s4 = Return ?s5"
    by (subst nvm_wait_ready [OF m4]) simp_all
  let ?m7 = "?m5 @ tpi_frame 0xF3 @ tpi_frame NVM_NOP @ [0xff, 0xff] @ pointer_frames (adrs s)"
  let ?s7 = "s\<lparr>currentByte := 0, miso := ?v @ r, mosi := ?m7\<rparr>"
  have s7: "setPointer (adrs (idle2 (writeIO NVMCMD NVM_NOP ?s5))) (idle2 (writeIO NVMCMD NVM_NOP ?s5)) = ?s7"
    by (simp add: setPointer_state writeIO_state idle2_state)
  have s8: "verify (2 * words) 0 ?s7
      = Return (?s7\<lparr>miso := r,
          mosi := mosi ?s7 @ concat (map (\<lambda>b. tpi_frame SLDp @ [0xff, 0xff]) (take (2 * words) (drop 0 (data ?s7))))\<rparr>)"
    by (rule verify_state) (use assms(2) in simp_all)
  show ?thesis
    unfolding flush_def Let_def s3 s4
    by (simp only: s5 bind_def result.case s7 s8) (simp add: flush_traffic_def)
qed


section \<open>Loading a file of data records\<close>

text \<open>
  The values of a run of two-digit fields.
\<close>

fun fields :: "byte list \<Rightarrow> byte list" where
  "fields (c0 # c1 # cs) = hex2 c0 c1 # fields cs"
| "fields cs = []"

text \<open>
  The answers of that target while the data bytes \<open>bs\<close> are taken, with the bytes \<open>pend\<close>
  waiting in the accumulator: an answer to a flush each time a group of \<open>2 * words\<close> bytes
  is full. \<open>pending\<close> gives the bytes that wait afterwards.
\<close>

fun target_reply :: "nat \<Rightarrow> byte list \<Rightarrow> byte list \<Rightarrow> byte list" where
  "target_reply words pend [] = []"
| "target_reply words pend (b # bs) =
     (if Suc (length pend) = 2 * words
      then flush_reply words (pend @ [b]) @ target_reply words [] bs
      else target_reply words (pend @ [b]) bs)"

fun pending :: "nat \<Rightarrow> byte list \<Rightarrow> byte list \<Rightarrow> byte list" where
  "pending words pend [] = pend"
| "pending words pend (b # bs) =
     (if Suc (length pend) = 2 * words then pending words [] bs
      else pending words (pend @ [b]) bs)"

text \<open>
  A data record as it is sent: the digits of the length, the four digits of the address, the
  digits of the payload and the digits of the checksum; the type is \<open>00\<close>. It is well formed
  when it holds as many payload fields as the length field says and its checksum field is the
  two's complement of the sum of the fields before it. A record with payload and address 0
  makes \<^verbatim>\<open>writeProgram\<close> start the group anew (\<open>restarts\<close>). \<open>file_reply\<close> is the answer of
  the target to the records of a file, and \<open>total\<close> the number of their data bytes.
\<close>

datatype hexline = Line byte byte byte byte byte byte "byte list" byte byte

fun line_chars :: "hexline \<Rightarrow> byte list" where
  "line_chars (Line t0 t1 a0 a1 a2 a3 body k0 k1) =
     [0x3A, t0, t1, a0, a1, a2, a3, 0x30, 0x30] @ body @ [k0, k1]"

fun line_bytes :: "hexline \<Rightarrow> byte list" where
  "line_bytes (Line t0 t1 a0 a1 a2 a3 body k0 k1) = fields body"

fun well_formed :: "hexline \<Rightarrow> bool" where
  "well_formed (Line t0 t1 a0 a1 a2 a3 body k0 k1) \<longleftrightarrow>
     length body = 2 * unat (hex2 t0 t1)
     \<and> hex2 k0 k1 = - (hex2 t0 t1 + hex2 a0 a1 + hex2 a2 a3 + sum_list (fields body))"

fun restarts :: "hexline \<Rightarrow> bool" where
  "restarts (Line t0 t1 a0 a1 a2 a3 body k0 k1) \<longleftrightarrow>
     hex2 t0 t1 \<noteq> 0 \<and> fst (asciiHexToUShort a0 [a1, a2, a3]) = 0"

fun file_reply :: "nat \<Rightarrow> byte list \<Rightarrow> hexline list \<Rightarrow> byte list" where
  "file_reply words pend [] = []"
| "file_reply words pend (l # ls) =
     (let p = (if restarts l then [] else pend)
      in target_reply words p (line_bytes l)
         @ file_reply words (pending words p (line_bytes l)) ls)"

definition total :: "hexline list \<Rightarrow> nat" where
  "total ls = sum_list (map (\<lambda>l. length (line_bytes l)) ls)"

text \<open>
  The answer to \<^verbatim>\<open>eraseChip\<close> of a target that is ready at the first poll.
\<close>

definition erase_reply :: "byte list" where
  "erase_reply = replicate 30 0xff @ tpi_frame 0"

text \<open>
  The state of the accumulator when the bytes \<open>pend\<close> wait in it, and how a state \<open>s'\<close>
  differs from \<open>s\<close> after \<open>n\<close> data bytes have been taken.
\<close>

definition loading :: "nat \<Rightarrow> byte list \<Rightarrow> state \<Rightarrow> bool" where
  "loading words pend s \<longleftrightarrow>
     currentByte s = length pend \<and> length pend < 2 * words \<and> 2 * words \<le> length (data s)
     \<and> take (length pend) (data s) = pend"

definition arrives :: "state \<Rightarrow> nat \<Rightarrow> byte option list \<Rightarrow> byte list \<Rightarrow> state \<Rightarrow> bool" where
  "arrives s n xs r s' \<longleftrightarrow>
     progSize s' = progSize s + n \<and> type s' = type s \<and> serial s' = xs \<and> miso s' = r"

lemma length_fields: "length body = 2 * n \<Longrightarrow> length (fields body) = n"
proof (induction n arbitrary: body)
  case 0
  then show ?case by simp
next
  case (Suc n)
  from Suc.prems obtain c0 c1 tl where b: "body = c0 # c1 # tl" and l: "length tl = 2 * n"
    by (cases body; cases "tl body") auto
  from Suc.IH [OF l] show ?case by (simp add: b)
qed

lemma store_byte_step:
  assumes "loading words pend s"
    and "progSize s < capacity (type s)"
    and "miso s = target_reply words pend [v] @ r"
  shows "\<exists>s'. store_byte words False c v s = Return (c + v, s')
     \<and> loading words (pending words pend [v]) s' \<and> arrives s (Suc 0) (serial s) r s'"
proof -
  from assms(1) have cb: "currentByte s = length pend" and lt: "length pend < 2 * words"
    and le: "2 * words \<le> length (data s)" and tk: "take (length pend) (data s) = pend"
    by (simp_all add: loading_def)
  let ?t = "stored v s"
  have p: "padded words False ?t = ?t" by (simp add: padded_def)
  have c: "\<not> capacity (type s) < Suc (progSize s)" using assms(2) by simp
  have cur: "currentByte ?t = Suc (length pend)" by (simp add: stored_def cb)
  have n: "length pend < length (data s)" using lt le by simp
  have tk': "take (Suc (length pend)) (data ?t) = pend @ [v]"
    using n tk by (simp add: stored_def cb take_Suc_conv_app_nth)
  show ?thesis
  proof (cases "Suc (length pend) = 2 * words")
    case True
    have g: "take (2 * words) (data ?t) = pend @ [v]" using tk' True by simp
    have "miso ?t = miso s" by (simp add: stored_def)
    also have "\<dots> = flush_reply words (pend @ [v]) @ r" using assms(3) True by simp
    finally have m: "miso ?t = flush_reply words (take (2 * words) (data ?t)) @ r"
      by (simp only: g)
    have l: "2 * words \<le> length (data ?t)" using le by (simp add: stored_def)
    let ?s' = "?t\<lparr>currentByte := 0, adrs := adrs ?t + of_nat (2 * words), miso := r,
          mosi := mosi ?t @ flush_traffic (adrs ?t) (take (2 * words) (data ?t))\<rparr>"
    have "store_byte words False c v s = Return (c + v, ?s')"
      unfolding store_byte_eq p using c cur True
      by (simp add: flush_state [OF m l] bind_def)
    moreover have "loading words (pending words pend [v]) ?s'"
      using True lt le by (simp add: loading_def stored_def)
    moreover have "arrives s (Suc 0) (serial s) r ?s'"
      by (simp add: arrives_def stored_def)
    ultimately show ?thesis by blast
  next
    case False
    have "store_byte words False c v s = Return (c + v, ?t)"
      unfolding store_byte_eq p using c cur False by simp
    moreover have "loading words (pending words pend [v]) ?t"
      using False lt le tk' cur by (simp add: loading_def) (simp add: stored_def)
    moreover have "arrives s (Suc 0) (serial s) r ?t"
      using assms(3) False by (simp add: arrives_def stored_def)
    ultimately show ?thesis by blast
  qed
qed

lemma target_reply_Cons:
  "target_reply words pend (b # bs)
     = target_reply words pend [b] @ target_reply words (pending words pend [b]) bs"
  by simp

lemma pending_Cons:
  "pending words pend (b # bs) = pending words (pending words pend [b]) bs"
  by simp

lemma data_loop_run:
  assumes "serial s = map Some body @ xs" and "length body = 2 * n"
    and "loading words pend s"
    and "progSize s + n \<le> capacity (type s)"
    and "miso s = target_reply words pend (fields body) @ r"
  shows "\<exists>s'. data_loop words False n c s = Return (c + sum_list (fields body), s')
     \<and> loading words (pending words pend (fields body)) s' \<and> arrives s n xs r s'"
  using assms
proof (induction n arbitrary: c s body pend)
  case 0
  then show ?case by (simp add: arrives_def)
next
  case (Suc n)
  from Suc.prems(2) obtain c0 c1 tl where b: "body = c0 # c1 # tl" and l: "length tl = 2 * n"
    by (cases body; cases "tl body") auto
  let ?v = "hex2 c0 c1"
  let ?p = "pending words pend [?v]"
  from Suc.prems(1) b have m: "serial s = Some c0 # Some c1 # (map Some tl @ xs)" by simp
  let ?s = "s\<lparr>serial := map Some tl @ xs\<rparr>"
  have d: "data_byte words False c s = store_byte words False c ?v ?s"
    using m by (rule data_byte_Some)
  have f: "fields body = ?v # fields tl" by (simp add: b)
  have 1: "loading words pend ?s" using Suc.prems(3) by (simp add: loading_def)
  have 2: "progSize ?s < capacity (type ?s)" using Suc.prems(4) by simp
  have 3: "miso ?s = target_reply words pend [?v] @ (target_reply words ?p (fields tl) @ r)"
    using Suc.prems(5) unfolding f by (subst (asm) target_reply_Cons) simp
  from store_byte_step [OF 1 2 3, of c] obtain s1 where
    st: "store_byte words False c ?v ?s = Return (c + ?v, s1)"
    and lo: "loading words ?p s1"
    and ar: "arrives ?s (Suc 0) (serial ?s) (target_reply words ?p (fields tl) @ r) s1"
    by blast
  from ar have a1: "serial s1 = map Some tl @ xs" and a2: "progSize s1 + n \<le> capacity (type s1)"
    and a3: "miso s1 = target_reply words ?p (fields tl) @ r"
    using Suc.prems(4) by (simp_all add: arrives_def)
  from Suc.IH [OF a1 l lo a2 a3, of "c + ?v"] obtain s' where
    dl: "data_loop words False n (c + ?v) s1 = Return (c + ?v + sum_list (fields tl), s')"
    and lo': "loading words (pending words ?p (fields tl)) s'"
    and ar': "arrives s1 n xs r s'"
    by blast
  have "data_loop words False (Suc n) c s = Return (c + sum_list (fields body), s')"
    by (simp add: d st dl bind_def f add.assoc)
  moreover have "loading words (pending words pend (fields body)) s'"
    unfolding f by (subst pending_Cons) (rule lo')
  moreover have "arrives s (Suc n) xs r s'"
    using ar ar' by (simp add: arrives_def)
  ultimately show ?case by blast
qed

lemma data_loop_overflow:
  assumes "serial s = map Some body @ xs" and "length body = 2 * n"
    and "loading words pend s"
    and "progSize s \<le> capacity (type s)" and "capacity (type s) < progSize s + n"
    and "miso s = target_reply words pend (fields body) @ r"
  shows "\<exists>s'. data_loop words False n c s = Abort TooLarge s'
     \<and> progSize s' = Suc (capacity (type s)) \<and> type s' = type s"
  using assms
proof (induction n arbitrary: c s body pend)
  case 0
  then show ?case by simp
next
  case (Suc n)
  from Suc.prems(2) obtain c0 c1 tl where b: "body = c0 # c1 # tl" and l: "length tl = 2 * n"
    by (cases body; cases "tl body") auto
  let ?v = "hex2 c0 c1"
  let ?p = "pending words pend [?v]"
  from Suc.prems(1) b have m: "serial s = Some c0 # Some c1 # (map Some tl @ xs)" by simp
  let ?s = "s\<lparr>serial := map Some tl @ xs\<rparr>"
  have d: "data_byte words False c s = store_byte words False c ?v ?s"
    using m by (rule data_byte_Some)
  have f: "fields body = ?v # fields tl" by (simp add: b)
  show ?case
  proof (cases "progSize s = capacity (type s)")
    case True
    then have "store_byte words False c ?v ?s = Abort TooLarge (stored ?v ?s)"
      by (simp add: store_byte_TooLarge)
    then have "data_loop words False (Suc n) c s = Abort TooLarge (stored ?v ?s)"
      by (simp add: d bind_def)
    moreover have "progSize (stored ?v ?s) = Suc (capacity (type s))" "type (stored ?v ?s) = type s"
      using True by (simp_all add: stored_def)
    ultimately show ?thesis by blast
  next
    case False
    have 1: "loading words pend ?s" using Suc.prems(3) by (simp add: loading_def)
    have 2: "progSize ?s < capacity (type ?s)" using Suc.prems(4) False by simp
    have 3: "miso ?s = target_reply words pend [?v] @ (target_reply words ?p (fields tl) @ r)"
      using Suc.prems(6) unfolding f by (subst (asm) target_reply_Cons) simp
    from store_byte_step [OF 1 2 3, of c] obtain s1 where
      st: "store_byte words False c ?v ?s = Return (c + ?v, s1)"
      and lo: "loading words ?p s1"
      and ar: "arrives ?s (Suc 0) (serial ?s) (target_reply words ?p (fields tl) @ r) s1"
      by blast
    from ar have a1: "serial s1 = map Some tl @ xs"
      and a2: "progSize s1 \<le> capacity (type s1)" and a3: "capacity (type s1) < progSize s1 + n"
      and a4: "miso s1 = target_reply words ?p (fields tl) @ r" and t: "type s1 = type s"
      using Suc.prems(4,5) False by (simp_all add: arrives_def)
    from Suc.IH [OF a1 l lo a2 a3 a4, of "c + ?v"] obtain s' where
      dl: "data_loop words False n (c + ?v) s1 = Abort TooLarge s'"
      and ps: "progSize s' = Suc (capacity (type s1))" and ty: "type s' = type s1"
      by blast
    have "data_loop words False (Suc n) c s = Abort TooLarge s'"
      by (simp add: d st dl bind_def)
    with ps ty t show ?thesis by simp
  qed
qed

lemma addressed_loading:
  assumes "loading words pend s"
  shows "loading words (if hex2 t0 t1 \<noteq> 0 \<and> fst (asciiHexToUShort a0 [a1, a2, a3]) = 0 then [] else pend)
     ((addressed (hex2 t0 t1) a0 a1 a2 a3 (s\<lparr>startTime := clock s\<rparr>))\<lparr>serial := ys\<rparr>)"
  using assms by (auto simp: loading_def addressed_def Let_def)

lemma addressed_same:
  "progSize ((addressed ll a0 a1 a2 a3 (s\<lparr>startTime := clock s\<rparr>))\<lparr>serial := ys\<rparr>) = progSize s"
  "type ((addressed ll a0 a1 a2 a3 (s\<lparr>startTime := clock s\<rparr>))\<lparr>serial := ys\<rparr>) = type s"
  "miso ((addressed ll a0 a1 a2 a3 (s\<lparr>startTime := clock s\<rparr>))\<lparr>serial := ys\<rparr>) = miso s"
  "serial ((addressed ll a0 a1 a2 a3 (s\<lparr>startTime := clock s\<rparr>))\<lparr>serial := ys\<rparr>) = ys"
  by (simp_all add: addressed_def Let_def)

lemma line_record:
  assumes "serial s = map Some (line_chars (Line t0 t1 a0 a1 a2 a3 body k0 k1)) @ xs"
  shows "read_record words s =
     bind (data_loop words False (unat (hex2 t0 t1)) (hex2 t0 t1 + hex2 a0 a1 + hex2 a2 a3)
             ((addressed (hex2 t0 t1) a0 a1 a2 a3 (s\<lparr>startTime := clock s\<rparr>))
                \<lparr>serial := map Some body @ Some k0 # Some k1 # xs\<rparr>))
          (\<lambda>(cs2, s2). check_tail False cs2 s2)"
proof -
  have ser: "serial s = Some 0x3A # Some t0 # Some t1 # Some a0 # Some a1 # Some a2 # Some a3
      # Some 0x30 # Some 0x30 # (map Some body @ Some k0 # Some k1 # xs)"
    using assms by simp
  have c: "(\<lambda>(cs2, s2). closing 0 cs2 s2) = (\<lambda>(cs2, s2). check_tail False cs2 s2)"
    by (simp add: fun_eq_iff closing_def)
  show ?thesis
    unfolding read_record_Some [OF ser] hex2_values c
    by (simp add: payload_def)
qed

lemma line_run:
  assumes "serial s = map Some (line_chars l) @ xs" and "well_formed l"
    and "loading words pend s"
    and "progSize s + length (line_bytes l) \<le> capacity (type s)"
    and "miso s = target_reply words (if restarts l then [] else pend) (line_bytes l) @ r"
  shows "\<exists>s'. read_record words s = Return (False, s')
     \<and> loading words (pending words (if restarts l then [] else pend) (line_bytes l)) s'
     \<and> arrives s (length (line_bytes l)) xs r s'"
proof -
  obtain t0 t1 a0 a1 a2 a3 body k0 k1 where l: "l = Line t0 t1 a0 a1 a2 a3 body k0 k1"
    by (cases l)
  let ?p = "if restarts l then [] else pend"
  let ?n = "unat (hex2 t0 t1)"
  let ?c = "hex2 t0 t1 + hex2 a0 a1 + hex2 a2 a3"
  let ?S = "(addressed (hex2 t0 t1) a0 a1 a2 a3 (s\<lparr>startTime := clock s\<rparr>))
     \<lparr>serial := map Some body @ Some k0 # Some k1 # xs\<rparr>"
  from assms(2) l have len: "length body = 2 * ?n"
    and sum: "hex2 k0 k1 = - (?c + sum_list (fields body))" by simp_all
  have nb: "length (line_bytes l) = ?n" using len by (simp add: l length_fields)
  have 1: "serial ?S = map Some body @ (Some k0 # Some k1 # xs)" by (simp add: addressed_same)
  have 3: "loading words ?p ?S"
    using addressed_loading [OF assms(3), of t0 t1 a0 a1 a2 a3] by (simp add: l)
  have 4: "progSize ?S + ?n \<le> capacity (type ?S)"
    using assms(4) by (simp add: addressed_same nb)
  have 5: "miso ?S = target_reply words ?p (fields body) @ r"
    using assms(5) by (simp add: addressed_same l)
  from data_loop_run [OF 1 len 3 4 5, of ?c] obtain s2 where
    dl: "data_loop words False ?n ?c ?S = Return (?c + sum_list (fields body), s2)"
    and lo: "loading words (pending words ?p (fields body)) s2"
    and ar: "arrives ?S ?n (Some k0 # Some k1 # xs) r s2"
    by blast
  from ar have ser2: "serial s2 = Some k0 # Some k1 # xs" by (simp add: arrives_def)
  let ?s' = "s2\<lparr>startTime := clock s2, serial := xs\<rparr>"
  have ct: "check_tail False (?c + sum_list (fields body)) s2 = Return (False, ?s')"
    by (simp add: check_tail_Some [OF ser2] sum)
  have "read_record words s = Return (False, ?s')"
    using assms(1) unfolding l by (simp add: line_record dl ct bind_def)
  moreover have "loading words (pending words ?p (line_bytes l)) ?s'"
    using lo by (simp add: loading_def l)
  moreover have "arrives s (length (line_bytes l)) xs r ?s'"
    using ar by (simp add: arrives_def addressed_same nb)
  ultimately show ?thesis by blast
qed

lemma line_overflow:
  assumes "serial s = map Some (line_chars l) @ xs" and "well_formed l"
    and "loading words pend s"
    and "progSize s \<le> capacity (type s)"
    and "capacity (type s) < progSize s + length (line_bytes l)"
    and "miso s = target_reply words (if restarts l then [] else pend) (line_bytes l) @ r"
  shows "\<exists>s'. read_record words s = Abort TooLarge s'
     \<and> progSize s' = Suc (capacity (type s)) \<and> type s' = type s"
proof -
  obtain t0 t1 a0 a1 a2 a3 body k0 k1 where l: "l = Line t0 t1 a0 a1 a2 a3 body k0 k1"
    by (cases l)
  let ?p = "if restarts l then [] else pend"
  let ?n = "unat (hex2 t0 t1)"
  let ?c = "hex2 t0 t1 + hex2 a0 a1 + hex2 a2 a3"
  let ?S = "(addressed (hex2 t0 t1) a0 a1 a2 a3 (s\<lparr>startTime := clock s\<rparr>))
     \<lparr>serial := map Some body @ Some k0 # Some k1 # xs\<rparr>"
  from assms(2) l have len: "length body = 2 * ?n" by simp
  have nb: "length (line_bytes l) = ?n" using len by (simp add: l length_fields)
  have 1: "serial ?S = map Some body @ (Some k0 # Some k1 # xs)" by (simp add: addressed_same)
  have 3: "loading words ?p ?S"
    using addressed_loading [OF assms(3), of t0 t1 a0 a1 a2 a3] by (simp add: l)
  have 4: "progSize ?S \<le> capacity (type ?S)" using assms(4) by (simp add: addressed_same)
  have 5: "capacity (type ?S) < progSize ?S + ?n" using assms(5) by (simp add: addressed_same nb)
  have 6: "miso ?S = target_reply words ?p (fields body) @ r"
    using assms(6) by (simp add: addressed_same l)
  from data_loop_overflow [OF 1 len 3 4 5 6, of ?c] obtain s' where
    dl: "data_loop words False ?n ?c ?S = Abort TooLarge s'"
    and ps: "progSize s' = Suc (capacity (type ?S))" and ty: "type s' = type ?S"
    by blast
  have "read_record words s = Abort TooLarge s'"
    using assms(1) unfolding l by (simp add: line_record dl bind_def)
  with ps ty show ?thesis by (simp add: addressed_same)
qed

lemma total_Cons: "total (l # ls) = length (line_bytes l) + total ls"
  by (simp add: total_def)

lemma file_run:
  assumes "serial s = map Some (concat (map line_chars ls)) @ chars '':00000001FF'' @ rest"
    and "\<forall>l \<in> set ls. well_formed l"
    and "loading words pend s"
    and "progSize s + total ls \<le> capacity (type s)"
    and "miso s = file_reply words pend ls @ r"
  shows "\<exists>s'. records words s = Return s' \<and> arrives s (total ls) rest r s'"
  using assms
proof (induction ls arbitrary: s pend)
  case Nil
  let ?s' = "s\<lparr>startTime := clock s, adrs := 0x4000, serial := rest\<rparr>"
  from Nil(1) have "read_record words s = Return (True, ?s')"
    by (intro eof_record) simp
  then have "records words s = Return ?s'" by (subst records.simps) simp
  moreover have "arrives s (total []) rest r ?s'"
    using Nil(5) by (simp add: arrives_def total_def)
  ultimately show ?case by blast
next
  case (Cons l ls)
  let ?p = "if restarts l then [] else pend"
  let ?xs = "map Some (concat (map line_chars ls)) @ chars '':00000001FF'' @ rest"
  let ?r = "file_reply words (pending words ?p (line_bytes l)) ls @ r"
  have 1: "serial s = map Some (line_chars l) @ ?xs" using Cons.prems(1) by simp
  have 2: "well_formed l" using Cons.prems(2) by simp
  have 4: "progSize s + length (line_bytes l) \<le> capacity (type s)"
    using Cons.prems(4) by (simp add: total_Cons)
  have 5: "miso s = target_reply words ?p (line_bytes l) @ ?r"
    using Cons.prems(5) by (simp add: Let_def)
  from line_run [OF 1 2 Cons.prems(3) 4 5] obtain s1 where
    rr: "read_record words s = Return (False, s1)"
    and lo: "loading words (pending words ?p (line_bytes l)) s1"
    and ar: "arrives s (length (line_bytes l)) ?xs ?r s1"
    by blast
  from ar have a1: "serial s1 = ?xs" and a4: "progSize s1 + total ls \<le> capacity (type s1)"
    and a5: "miso s1 = ?r"
    using Cons.prems(4) by (simp_all add: arrives_def total_Cons)
  have a2: "\<forall>l \<in> set ls. well_formed l" using Cons.prems(2) by simp
  from Cons.IH [OF a1 a2 lo a4 a5] obtain s' where
    rs: "records words s1 = Return s'" and ar': "arrives s1 (total ls) rest r s'"
    by blast
  have "records words s = Return s'"
    by (subst records.simps) (simp add: rr rs)
  moreover have "arrives s (total (l # ls)) rest r s'"
    using ar ar' by (simp add: arrives_def total_Cons)
  ultimately show ?case by blast
qed

lemma file_overflow:
  assumes "serial s = map Some (concat (map line_chars ls)) @ xs"
    and "\<forall>l \<in> set ls. well_formed l"
    and "loading words pend s"
    and "progSize s \<le> capacity (type s)"
    and "capacity (type s) < progSize s + total ls"
    and "miso s = file_reply words pend ls @ r"
  shows "\<exists>s'. records words s = Abort TooLarge s' \<and> progSize s' = Suc (capacity (type s))"
  using assms
proof (induction ls arbitrary: s pend)
  case Nil
  then show ?case by (simp add: total_def)
next
  case (Cons l ls)
  let ?p = "if restarts l then [] else pend"
  let ?xs = "map Some (concat (map line_chars ls)) @ xs"
  let ?r = "file_reply words (pending words ?p (line_bytes l)) ls @ r"
  have 1: "serial s = map Some (line_chars l) @ ?xs" using Cons.prems(1) by simp
  have 2: "well_formed l" using Cons.prems(2) by simp
  have 5: "miso s = target_reply words ?p (line_bytes l) @ ?r"
    using Cons.prems(6) by (simp add: Let_def)
  show ?case
  proof (cases "progSize s + length (line_bytes l) \<le> capacity (type s)")
    case True
    from line_run [OF 1 2 Cons.prems(3) True 5] obtain s1 where
      rr: "read_record words s = Return (False, s1)"
      and lo: "loading words (pending words ?p (line_bytes l)) s1"
      and ar: "arrives s (length (line_bytes l)) ?xs ?r s1"
      by blast
    from ar have a1: "serial s1 = ?xs" and a4: "progSize s1 \<le> capacity (type s1)"
      and a5: "capacity (type s1) < progSize s1 + total ls" and a6: "miso s1 = ?r"
      and t: "type s1 = type s"
      using Cons.prems(5) True by (simp_all add: arrives_def total_Cons)
    have a2: "\<forall>l \<in> set ls. well_formed l" using Cons.prems(2) by simp
    from Cons.IH [OF a1 a2 lo a4 a5 a6] obtain s' where
      rs: "records words s1 = Abort TooLarge s'" and ps: "progSize s' = Suc (capacity (type s1))"
      by blast
    have "records words s = Abort TooLarge s'"
      by (subst records.simps) (simp add: rr rs)
    with ps t show ?thesis by simp
  next
    case False
    then have ov: "capacity (type s) < progSize s + length (line_bytes l)" by simp
    from line_overflow [OF 1 2 Cons.prems(3) Cons.prems(4) ov 5] obtain s' where
      rr: "read_record words s = Abort TooLarge s'" and ps: "progSize s' = Suc (capacity (type s))"
      by blast
    have "records words s = Abort TooLarge s'"
      by (subst records.simps) (simp add: rr)
    with ps show ?thesis by blast
  qed
qed

lemma known_words:
  assumes "type s \<in> {Tiny4_5, Tiny9, Tiny10, Tiny20, Tiny40, Tiny102, Tiny104}"
  shows "0 < 2 * words_of (type s)" "2 * words_of (type s) \<le> 16"
  using assms
  by (auto simp: words_of_def Tiny4_5_def Tiny9_def Tiny10_def Tiny20_def Tiny40_def
      Tiny102_def Tiny104_def)

lemma erased:
  assumes "miso s = erase_reply @ r"
  shows "eraseChip (s\<lparr>progSize := 0, currentByte := 0\<rparr>)
     = Return (s\<lparr>progSize := 0, currentByte := 0, adrs := 0x4001, miso := r,
                  mosi := mosi s @ erase_traffic\<rparr>)"
  by (subst eraseChip_ready [where v = 0 and r = r]) (simp_all add: assms erase_reply_def)

lemma load_file:
  assumes "type s \<in> {Tiny4_5, Tiny9, Tiny10, Tiny20, Tiny40, Tiny102, Tiny104}"
    and "length (data s) = 16"
    and "\<forall>l \<in> set ls. well_formed l"
    and "serial s = map Some (concat (map line_chars ls)) @ chars '':00000001FF'' @ rest"
    and "miso s = erase_reply @ file_reply (words_of (type s)) [] ls @ r"
  shows "total ls \<le> capacity (type s) \<Longrightarrow>
           \<exists>s'. writeProgram s = Return s' \<and> progSize s' = total ls \<and> serial s' = rest"
    and "capacity (type s) < total ls \<Longrightarrow>
           \<exists>s'. writeProgram s = Abort TooLarge s' \<and> progSize s' = Suc (capacity (type s))"
proof -
  let ?w = "words_of (type s)"
  let ?e = "s\<lparr>progSize := 0, currentByte := 0, adrs := 0x4001,
      miso := file_reply ?w [] ls @ r, mosi := mosi s @ erase_traffic\<rparr>"
  have e: "eraseChip (s\<lparr>progSize := 0, currentByte := 0\<rparr>) = Return ?e"
    using assms(5) by (rule erased)
  have w: "writeProgram s = records ?w ?e"
    by (simp add: writeProgram_def Let_def e bind_def)
  have lo: "loading ?w [] ?e"
    using known_words [OF assms(1)] assms(2) by (simp add: loading_def)
  have ser: "serial ?e = map Some (concat (map line_chars ls)) @ chars '':00000001FF'' @ rest"
    using assms(4) by simp
  have m: "miso ?e = file_reply ?w [] ls @ r" by simp
  {
    assume "total ls \<le> capacity (type s)"
    then have "progSize ?e + total ls \<le> capacity (type ?e)" by simp
    from file_run [OF ser assms(3) lo this m]
    show "\<exists>s'. writeProgram s = Return s' \<and> progSize s' = total ls \<and> serial s' = rest"
      unfolding w by (auto simp: arrives_def)
  next
    assume "capacity (type s) < total ls"
    then have o: "capacity (type ?e) < progSize ?e + total ls" by simp
    have j: "progSize ?e \<le> capacity (type ?e)" by simp
    from file_overflow [OF ser assms(3) lo j o m]
    show "\<exists>s'. writeProgram s = Abort TooLarge s' \<and> progSize s' = Suc (capacity (type s))"
      unfolding w by simp
  }
qed


section \<open>Claims about the capacity\<close>

text \<open>
  The record \<open>:10000000\<close> \<open>00\<close> ... \<open>00\<close> \<open>F0\<close>: sixteen bytes 0 at address 0.
\<close>

definition zero_line :: hexline where
  "zero_line = Line 0x31 0x30 0x30 0x30 0x30 0x30 (replicate 32 0x30) 0x46 0x30"

text \<open>
  The record \<open>:0102000000FD\<close>: one byte 0 at address \<open>0x0200\<close>.
\<close>

definition last_line :: hexline where
  "last_line = Line 0x30 0x31 0x30 0x32 0x30 0x30 [0x30, 0x30] 0x46 0x44"

lemma fields_replicate: "fields (replicate (2 * n) c) = replicate n (hex2 c c)"
  by (induction n) simp_all

lemma zero_line_bytes: "line_bytes zero_line = replicate 16 0"
proof -
  have "replicate 32 (0x30 :: byte) = replicate (2 * 16) 0x30" by simp
  then show ?thesis
    unfolding zero_line_def line_bytes.simps
    by (simp only: fields_replicate hex2_values)
qed

lemma hex2_line: "hex2 0x31 0x30 = 0x10" "hex2 0x46 0x30 = 0xF0" "hex2 0x46 0x44 = 0xFD"
  by (simp_all add: hex_pair_value hex_digit_def)

lemma zero_line_well_formed: "well_formed zero_line"
proof -
  have "fields (replicate 32 (0x30 :: byte)) = replicate 16 0"
    using zero_line_bytes by (simp add: zero_line_def)
  then have "sum_list (fields (replicate 32 (0x30 :: byte))) = 0"
    by (simp add: sum_list_replicate)
  then show ?thesis
    by (simp add: zero_line_def hex2_line hex2_values)
qed

lemma last_line_well_formed: "well_formed last_line"
  by (simp add: last_line_def hex2_values hex2_line)

lemma zero_lines_total:
  "total (replicate n zero_line) = 16 * n"
  "total (replicate n zero_line @ [last_line]) = Suc (16 * n)"
  by (simp_all add: total_def zero_line_bytes sum_list_replicate last_line_def)

text \<open>
  C6. The device is one of the chips of the signature table, the accumulator has its 16
  bytes, the stream holds the data records \<open>ls\<close> (any length, address and payload digits, each
  with the checksum of its fields) followed by the end-of-file record, and the target accepts
  every write. Then a file of at most \<open>capacity\<close> data bytes, so one of exactly \<open>capacity\<close>
  bytes, is loaded: \<^verbatim>\<open>writeProgram\<close> returns, having counted every data byte and read the whole
  file. A file of more than \<open>capacity\<close> bytes, so one of \<open>capacity + 1\<close>, is refused with
  \<open>TooLarge\<close> when \<open>progSize\<close> is \<open>capacity + 1\<close>, that is at the byte that crosses the limit.
  The capacity is 512 bytes for the ATtiny4/5 and 1024 bytes times the word width for the other
  chips. The last two parts hold for every stream and every target (\<open>u\<close> is any state): a load
  that returns has counted at most \<open>capacity\<close> bytes, and one refused with \<open>TooLarge\<close> has counted
  \<open>capacity + 1\<close>.
\<close>

theorem capacity_boundary:
  assumes "type s \<in> {Tiny4_5, Tiny9, Tiny10, Tiny20, Tiny40, Tiny102, Tiny104}"
    and "length (data s) = 16"
    and "\<forall>l \<in> set ls. well_formed l"
    and "serial s = map Some (concat (map line_chars ls)) @ chars '':00000001FF'' @ rest"
    and "miso s = erase_reply @ file_reply (words_of (type s)) [] ls @ r"
  shows "capacity (type s) = (if type s = Tiny4_5 then 512 else 1024 * words_of (type s))
    \<and> (total ls \<le> capacity (type s) \<longrightarrow>
         (\<exists>s'. writeProgram s = Return s' \<and> progSize s' = total ls \<and> serial s' = rest))
    \<and> (capacity (type s) < total ls \<longrightarrow>
         (\<exists>s'. writeProgram s = Abort TooLarge s' \<and> progSize s' = Suc (capacity (type s))))
    \<and> (writeProgram u = Return u' \<longrightarrow> progSize u' \<le> capacity (type u))
    \<and> (writeProgram u = Abort TooLarge u' \<longrightarrow> progSize u' = Suc (capacity (type u)))"
proof -
  have "capacity (type s) = (if type s = Tiny4_5 then 512 else 1024 * words_of (type s))"
    by (simp add: capacity_def words_of_def)
  with load_file [OF assms] writeProgram_capacity [of u u'] show ?thesis by blast
qed

theorem capacity_boundary_witness:
  "(\<exists>s'. writeProgram (init\<lparr>type := Tiny4_5,
             serial := map Some (concat (map line_chars (replicate 32 zero_line)))
                       @ chars '':00000001FF'',
             miso := erase_reply @ file_reply 1 [] (replicate 32 zero_line)\<rparr>) = Return s'
        \<and> progSize s' = 512 \<and> serial s' = [])
   \<and> (\<exists>s'. writeProgram (init\<lparr>type := Tiny4_5,
             serial := map Some (concat (map line_chars (replicate 32 zero_line @ [last_line])))
                       @ chars '':00000001FF'',
             miso := erase_reply @ file_reply 1 [] (replicate 32 zero_line @ [last_line])\<rparr>)
          = Abort TooLarge s'
        \<and> progSize s' = 513)
   \<and> (\<exists>s'. writeProgram (init\<lparr>type := Tiny40,
             serial := map Some (concat (map line_chars (replicate 256 zero_line)))
                       @ chars '':00000001FF'',
             miso := erase_reply @ file_reply 4 [] (replicate 256 zero_line)\<rparr>) = Return s'
        \<and> progSize s' = 4096 \<and> serial s' = [])
   \<and> (\<exists>s'. writeProgram (init\<lparr>type := Tiny40,
             serial := map Some (concat (map line_chars (replicate 256 zero_line @ [last_line])))
                       @ chars '':00000001FF'',
             miso := erase_reply @ file_reply 4 [] (replicate 256 zero_line @ [last_line])\<rparr>)
          = Abort TooLarge s'
        \<and> progSize s' = 4097)"
proof -
  let ?A = "init\<lparr>type := Tiny4_5,
             serial := map Some (concat (map line_chars (replicate 32 zero_line)))
                       @ chars '':00000001FF'',
             miso := erase_reply @ file_reply 1 [] (replicate 32 zero_line)\<rparr>"
  let ?B = "init\<lparr>type := Tiny4_5,
             serial := map Some (concat (map line_chars (replicate 32 zero_line @ [last_line])))
                       @ chars '':00000001FF'',
             miso := erase_reply @ file_reply 1 [] (replicate 32 zero_line @ [last_line])\<rparr>"
  let ?C = "init\<lparr>type := Tiny40,
             serial := map Some (concat (map line_chars (replicate 256 zero_line)))
                       @ chars '':00000001FF'',
             miso := erase_reply @ file_reply 4 [] (replicate 256 zero_line)\<rparr>"
  let ?D = "init\<lparr>type := Tiny40,
             serial := map Some (concat (map line_chars (replicate 256 zero_line @ [last_line])))
                       @ chars '':00000001FF'',
             miso := erase_reply @ file_reply 4 [] (replicate 256 zero_line @ [last_line])\<rparr>"
  have c: "capacity Tiny4_5 = 512" "capacity Tiny40 = 4096"
    and w: "words_of Tiny4_5 = 1" "words_of Tiny40 = 4"
    by (simp_all add: capacity_def words_of_def Tiny40_def Tiny4_5_def)
  have a1: "type ?A \<in> {Tiny4_5, Tiny9, Tiny10, Tiny20, Tiny40, Tiny102, Tiny104}"
    and b1: "type ?B \<in> {Tiny4_5, Tiny9, Tiny10, Tiny20, Tiny40, Tiny102, Tiny104}"
    and c1: "type ?C \<in> {Tiny4_5, Tiny9, Tiny10, Tiny20, Tiny40, Tiny102, Tiny104}"
    and d1: "type ?D \<in> {Tiny4_5, Tiny9, Tiny10, Tiny20, Tiny40, Tiny102, Tiny104}" by simp_all
  have a2: "length (data ?A) = 16" and b2: "length (data ?B) = 16"
    and c2: "length (data ?C) = 16" and d2: "length (data ?D) = 16" by (simp_all add: init_def)
  have a3: "\<forall>l \<in> set (replicate 32 zero_line). well_formed l"
    and b3: "\<forall>l \<in> set (replicate 32 zero_line @ [last_line]). well_formed l"
    and c3: "\<forall>l \<in> set (replicate 256 zero_line). well_formed l"
    and d3: "\<forall>l \<in> set (replicate 256 zero_line @ [last_line]). well_formed l"
    by (simp_all add: zero_line_well_formed last_line_well_formed)
  have a4: "serial ?A = map Some (concat (map line_chars (replicate 32 zero_line)))
      @ chars '':00000001FF'' @ []"
    and b4: "serial ?B = map Some (concat (map line_chars (replicate 32 zero_line @ [last_line])))
      @ chars '':00000001FF'' @ []"
    and c4: "serial ?C = map Some (concat (map line_chars (replicate 256 zero_line)))
      @ chars '':00000001FF'' @ []"
    and d4: "serial ?D = map Some (concat (map line_chars (replicate 256 zero_line @ [last_line])))
      @ chars '':00000001FF'' @ []" by simp_all
  have a5: "miso ?A = erase_reply @ file_reply (words_of (type ?A)) [] (replicate 32 zero_line) @ []"
    and b5: "miso ?B = erase_reply
      @ file_reply (words_of (type ?B)) [] (replicate 32 zero_line @ [last_line]) @ []"
    and c5: "miso ?C = erase_reply @ file_reply (words_of (type ?C)) [] (replicate 256 zero_line) @ []"
    and d5: "miso ?D = erase_reply
      @ file_reply (words_of (type ?D)) [] (replicate 256 zero_line @ [last_line]) @ []"
    by (simp_all add: w)
  from capacity_boundary [OF a1 a2 a3 a4 a5]
  have A: "\<exists>s'. writeProgram ?A = Return s' \<and> progSize s' = 512 \<and> serial s' = []"
    by (simp add: c zero_lines_total)
  from capacity_boundary [OF b1 b2 b3 b4 b5]
  have B: "\<exists>s'. writeProgram ?B = Abort TooLarge s' \<and> progSize s' = 513"
    by (simp add: c zero_lines_total)
  from capacity_boundary [OF c1 c2 c3 c4 c5]
  have C: "\<exists>s'. writeProgram ?C = Return s' \<and> progSize s' = 4096 \<and> serial s' = []"
    by (simp add: c zero_lines_total)
  from capacity_boundary [OF d1 d2 d3 d4 d5]
  have D: "\<exists>s'. writeProgram ?D = Abort TooLarge s' \<and> progSize s' = 4097"
    by (simp add: c zero_lines_total)
  from A B C D show ?thesis by blast
qed


section \<open>Claims about the end-of-file record\<close>

text \<open>
  C1, on the code. The padding of the last group and its flush stand inside the loop over the
  data bytes of the record. The end-of-file record \<open>:00000001FF\<close> has no data byte, so reading it
  touches neither the accumulator nor the target, whatever state the loader is in. An ATtiny20
  (two words per write) that is sent one record of three data bytes and the end-of-file record
  reports success with the three bytes still in the accumulator (\<open>currentByte = 3\<close>, no pad
  byte appended) and with nothing sent to the target after the chip erase.
\<close>

theorem eof_record_leaves_group_unwritten:
  "writeProgram (init\<lparr>type := Tiny20, serial := chars '':0300000011223397:00000001FF'',
                      miso := replicate 30 0xff @ tpi_frame 0\<rparr>)
     = Return (init\<lparr>type := Tiny20, progSize := 3, currentByte := 3,
                    data := [0x11, 0x22, 0x33] @ replicate 13 0, adrs := 0x4000,
                    serial := [], miso := [], mosi := erase_traffic\<rparr>)
   \<and> read_record words (s\<lparr>serial := chars '':00000001FF'' @ rest\<rparr>)
     = Return (True, s\<lparr>startTime := clock s, adrs := 0x4000, serial := rest\<rparr>)"
proof -
  have "read_record words (s\<lparr>serial := chars '':00000001FF'' @ rest\<rparr>)
     = Return (True, s\<lparr>startTime := clock s, adrs := 0x4000, serial := rest\<rparr>)"
    by (subst eof_record [where rest = rest]) simp_all
  with run_three_bytes show ?thesis by simp
qed

section \<open>Whole records\<close>

lemma skip_loop_Some:
  "serial s = Some c0 # Some c1 # xs \<Longrightarrow>
   skip_loop (Suc n) cs s = skip_loop n (cs + hex2 c0 c1) (s\<lparr>serial := xs\<rparr>)"
  by (simp add: read_field_Some bind_def)

lemma hex2_type2:
  "hex2 0x31 0x32 = 0x12" "hex2 0x45 0x41 = 0xEA" "hex2 0x3A 0x30 = 0xA0" "hex2 0x43 0x30 = 0xC0"
  "hex2 0x33 0x42 = 0x3B"
  by (simp_all add: hex_pair_value hex_digit_def)

lemma type3_record:
  "read_record 2 (init\<lparr>type := Tiny20, serial := chars '':0200000300C03B''\<rparr>)
     = Return (False, init\<lparr>type := Tiny20, progSize := 2, currentByte := 2,
                           data := [0x00, 0xC0] @ replicate 14 0, adrs := 0x4000, serial := []\<rparr>)"
proof -
  let ?S = "init\<lparr>type := Tiny20, serial := chars '':0200000300C03B''\<rparr>"
  let ?p = "\<lambda>xs. init\<lparr>type := Tiny20, adrs := 0x4000, serial := xs\<rparr>"
  have cap: "capacity Tiny20 = 2048" by (simp add: capacity_def Tiny20_def Tiny4_5_def)
  have ser: "serial ?S = Some 0x3A # Some 0x30 # Some 0x32 # Some 0x30 # Some 0x30 # Some 0x30
      # Some 0x30 # Some 0x30 # Some 0x33
      # [Some 0x30, Some 0x30, Some 0x43, Some 0x30, Some 0x33, Some 0x42]"
    by (simp add: chars_def)
  have a: "fst (asciiHexToUShort 0x30 [0x30, 0x30, 0x30]) = 0"
    by (simp add: asciiHexToUShort_def hex_loop.simps hex_digit_def Let_def)
  have s1: "(addressed 2 0x30 0x30 0x30 0x30 (?S\<lparr>startTime := clock ?S\<rparr>))
      \<lparr>serial := [Some 0x30, Some 0x30, Some 0x43, Some 0x30, Some 0x33, Some 0x42]\<rparr>
      = ?p [Some 0x30, Some 0x30, Some 0x43, Some 0x30, Some 0x33, Some 0x42]"
    by (simp add: addressed_def a Let_def init_def)
  let ?q1 = "stored 0x00 (?p [Some 0x43, Some 0x30, Some 0x33, Some 0x42])"
  let ?q2 = "stored 0xC0 (?q1\<lparr>serial := [Some 0x33, Some 0x42]\<rparr>)"
  have b1: "data_byte 2 False 5 (?p [Some 0x30, Some 0x30, Some 0x43, Some 0x30, Some 0x33, Some 0x42])
      = Return (5 + 0x00, ?q1)"
    by (subst data_byte_keep [where ?c0.0 = "0x30" and ?c1.0 = "0x30"
          and xs = "[Some 0x43, Some 0x30, Some 0x33, Some 0x42]"])
       (simp_all add: cap hex2_values init_def)
  have b2: "data_byte 2 False (5 + 0x00) ?q1 = Return (5 + 0x00 + 0xC0, ?q2)"
    by (subst data_byte_keep [where ?c0.0 = "0x43" and ?c1.0 = "0x30"
          and xs = "[Some 0x33, Some 0x42]"])
       (simp_all add: cap hex2_type2 init_def stored_def)
  have l: "data_loop 2 False (Suc (Suc 0)) 5 (?p [Some 0x30, Some 0x30, Some 0x43, Some 0x30, Some 0x33, Some 0x42])
      = Return (5 + 0x00 + 0xC0, ?q2)"
    by (simp only: data_loop.simps b1 b2 bind_def result.case prod.case)
  have u: "unat (2 :: byte) = Suc (Suc 0)" by simp
  have "payload 2 2 3 (2 + 0 + 0 + 3) (?p [Some 0x30, Some 0x30, Some 0x43, Some 0x30, Some 0x33, Some 0x42])
      = data_loop 2 False (unat (2 :: byte)) 5 (?p [Some 0x30, Some 0x30, Some 0x43, Some 0x30, Some 0x33, Some 0x42])"
    by (simp add: payload_def)
  then have pl: "payload 2 2 3 (2 + 0 + 0 + 3) (?p [Some 0x30, Some 0x30, Some 0x43, Some 0x30, Some 0x33, Some 0x42])
      = Return (5 + 0x00 + 0xC0, ?q2)"
    by (simp only: u l)
  have c: "check_tail False (5 + 0x00 + 0xC0) ?q2
      = Return (False, ?q2\<lparr>startTime := clock ?q2, serial := []\<rparr>)"
    by (subst check_tail_Some [where ?c0.0 = "0x33" and ?c1.0 = "0x42" and xs = "[]"])
       (simp_all add: hex2_type2 stored_def)
  have "read_record 2 ?S = Return (False, ?q2\<lparr>startTime := clock ?q2, serial := []\<rparr>)"
    unfolding read_record_Some [OF ser] hex2_values s1
    by (simp only: pl c bind_def result.case prod.case closing_values)
  moreover have "?q2\<lparr>startTime := clock ?q2, serial := []\<rparr>
      = init\<lparr>type := Tiny20, progSize := 2, currentByte := 2,
                           data := [0x00, 0xC0] @ replicate 14 0, adrs := 0x4000, serial := []\<rparr>"
    by (simp add: stored_def init_def numeral_eq_Suc)
  ultimately show ?thesis by simp
qed




lemma skip_loop_sum:
  assumes "serial s = map Some body @ xs" and "length body = 2 * n"
  shows "skip_loop n c s = Return (c + sum_list (fields body), s\<lparr>serial := xs\<rparr>)"
  using assms
proof (induction n arbitrary: c s body)
  case 0
  then show ?case by simp
next
  case (Suc n)
  from Suc.prems(2) obtain c0 c1 tl where b: "body = c0 # c1 # tl" and l: "length tl = 2 * n"
    by (cases body; cases "tl body") auto
  from Suc.prems(1) b have m: "serial s = Some c0 # Some c1 # (map Some tl @ xs)" by simp
  have "serial (s\<lparr>serial := map Some tl @ xs\<rparr>) = map Some tl @ xs" by simp
  from Suc.IH [OF this l, of "c + hex2 c0 c1"]
  show ?case
    unfolding skip_loop_Some [OF m] b by (simp add: add.assoc)
qed



lemma skipped_record:
  assumes ser: "serial s = Some 0x3A # map Some ([t0, t1, a0, a1, a2, a3, y0, y1] @ body @ [k0, k1]) @ rest"
    and len: "length body = 2 * unat (hex2 t0 t1)"
    and ty: "hex2 y0 y1 = 2"
  shows "read_record words s
     = Return (False, (addressed (hex2 t0 t1) a0 a1 a2 a3 (s\<lparr>startTime := clock s\<rparr>))\<lparr>serial := rest\<rparr>)"
proof -
  let ?ll = "hex2 t0 t1"
  let ?c = "?ll + hex2 a0 a1 + hex2 a2 a3 + 2"
  let ?S = "(addressed ?ll a0 a1 a2 a3 (s\<lparr>startTime := clock s\<rparr>))
     \<lparr>serial := map Some (body @ [k0, k1]) @ rest\<rparr>"
  have ser': "serial s = Some 0x3A # Some t0 # Some t1 # Some a0 # Some a1 # Some a2 # Some a3
      # Some y0 # Some y1 # (map Some (body @ [k0, k1]) @ rest)"
    using ser by simp
  have k: "(\<lambda>(cs2, s2). closing (2 :: byte) cs2 s2) = (\<lambda>(cs2, s2). Return (False, s2))"
    by (simp add: fun_eq_iff closing_def)
  have 1: "serial ?S = map Some (body @ [k0, k1]) @ rest" by simp
  have 2: "length (body @ [k0, k1]) = 2 * Suc (unat ?ll)" using len by simp
  have "read_record words s = bind (skip_loop (Suc (unat ?ll)) ?c ?S) (\<lambda>(cs2, s2). Return (False, s2))"
    unfolding read_record_Some [OF ser'] ty k by (simp add: payload_def del: skip_loop.simps)
  also have "\<dots> = Return (False, ?S\<lparr>serial := rest\<rparr>)"
    unfolding skip_loop_sum [OF 1 2] by (simp add: bind_def)
  finally show ?thesis by simp
qed



section \<open>Claims about the checksum\<close>



lemma type2_any_checksum:
  "read_record words (s\<lparr>serial := chars '':020000021200'' @ Some k0 # Some k1 # rest\<rparr>)
     = Return (False, s\<lparr>startTime := clock s, adrs := 0x4000, currentByte := 0, serial := rest\<rparr>)"
proof -
  let ?S = "s\<lparr>serial := chars '':020000021200'' @ Some k0 # Some k1 # rest\<rparr>"
  have ser: "serial ?S = Some 0x3A # map Some ([0x30, 0x32, 0x30, 0x30, 0x30, 0x30, 0x30, 0x32]
      @ [0x31, 0x32, 0x30, 0x30] @ [k0, k1]) @ rest"
    by (simp add: chars_def)
  have len: "length [0x31, 0x32, 0x30, 0x30 :: byte] = 2 * unat (hex2 0x30 0x32)"
    by (simp add: hex2_values)
  have a: "fst (asciiHexToUShort 0x30 [0x30, 0x30, 0x30]) = 0"
    by (simp add: asciiHexToUShort_def hex_loop.simps hex_digit_def Let_def)
  show ?thesis
    unfolding skipped_record [OF ser len hex2_values(3)]
    by (simp add: addressed_def a Let_def hex2_values)
qed





section \<open>Claims about the record types\<close>

lemma data_byte_flush:
  assumes "serial s = Some c0 # Some c1 # xs"
    and "Suc (progSize s) \<le> capacity (type s)"
    and "Suc (currentByte s) = 2 * words"
    and "2 * words \<le> length (data s)"
    and "miso s = flush_reply words (take (2 * words) ((data s)[currentByte s := hex2 c0 c1])) @ r"
  shows "data_byte words False cs s
     = Return (cs + hex2 c0 c1,
         s\<lparr>serial := xs, data := (data s)[currentByte s := hex2 c0 c1],
            progSize := Suc (progSize s), currentByte := 0,
            adrs := adrs s + of_nat (2 * words), miso := r,
            mosi := mosi s @ flush_traffic (adrs s)
                      (take (2 * words) ((data s)[currentByte s := hex2 c0 c1]))\<rparr>)"
proof -
  let ?t = "stored (hex2 c0 c1) (s\<lparr>serial := xs\<rparr>)"
  have m: "miso ?t = flush_reply words (take (2 * words) (data ?t)) @ r"
    using assms(5) by (simp add: stored_def)
  have l: "2 * words \<le> length (data ?t)" using assms(4) by (simp add: stored_def)
  have p: "padded words False ?t = ?t" by (simp add: padded_def)
  have c: "currentByte ?t = 2 * words" using assms(3) by (simp add: stored_def)
  have "store_byte words False cs (hex2 c0 c1) (s\<lparr>serial := xs\<rparr>)
      = bind (flush words ?t) (\<lambda>s4. Return (cs + hex2 c0 c1, s4))"
    unfolding store_byte_eq p using assms(2) c by simp
  then show ?thesis
    unfolding data_byte_Some [OF assms(1)] flush_state [OF m l]
    by (simp add: bind_def stored_def)
qed

lemma type3_flash:
  "writeProgram (init\<lparr>type := Tiny10, serial := chars '':0200000300C03B:00000001FF'',
                      miso := erase_reply @ flush_reply 1 [0x00, 0xC0]\<rparr>)
     = Return (init\<lparr>type := Tiny10, progSize := 2, data := [0x00, 0xC0] @ replicate 14 0,
                    adrs := 0x4000, serial := [], miso := [],
                    mosi := erase_traffic @ flush_traffic 0x4000 [0x00, 0xC0]\<rparr>)"
proof -
  let ?S = "init\<lparr>type := Tiny10, serial := chars '':0200000300C03B:00000001FF'',
                      miso := erase_reply @ flush_reply 1 [0x00, 0xC0]\<rparr>"
  let ?eof = "chars '':00000001FF''"
  let ?e = "?S\<lparr>progSize := 0, currentByte := 0, adrs := 0x4001,
      miso := flush_reply 1 [0x00, 0xC0], mosi := mosi ?S @ erase_traffic\<rparr>"
  have e: "eraseChip (?S\<lparr>progSize := 0, currentByte := 0\<rparr>) = Return ?e"
    by (rule erased) simp
  have w: "words_of (type ?e) = Suc 0" by (simp add: words_of_def Tiny10_def Tiny4_5_def)
  have cap: "capacity Tiny10 = 1024" by (simp add: capacity_def Tiny10_def Tiny4_5_def)
  let ?p = "\<lambda>xs. init\<lparr>type := Tiny10, adrs := 0x4000, miso := flush_reply 1 [0x00, 0xC0],
      mosi := erase_traffic, serial := xs\<rparr>"
  have ser: "serial ?e = Some 0x3A # Some 0x30 # Some 0x32 # Some 0x30 # Some 0x30 # Some 0x30
      # Some 0x30 # Some 0x30 # Some 0x33
      # (Some 0x30 # Some 0x30 # Some 0x43 # Some 0x30 # Some 0x33 # Some 0x42 # ?eof)"
    by (simp add: chars_def)
  have a: "fst (asciiHexToUShort 0x30 [0x30, 0x30, 0x30]) = 0"
    by (simp add: asciiHexToUShort_def hex_loop.simps hex_digit_def Let_def)
  have s1: "(addressed 2 0x30 0x30 0x30 0x30 (?e\<lparr>startTime := clock ?e\<rparr>))
      \<lparr>serial := Some 0x30 # Some 0x30 # Some 0x43 # Some 0x30 # Some 0x33 # Some 0x42 # ?eof\<rparr>
      = ?p (Some 0x30 # Some 0x30 # Some 0x43 # Some 0x30 # Some 0x33 # Some 0x42 # ?eof)"
    by (simp add: addressed_def a Let_def init_def)
  let ?q1 = "stored 0x00 (?p (Some 0x43 # Some 0x30 # Some 0x33 # Some 0x42 # ?eof))"
  let ?q2 = "init\<lparr>type := Tiny10, progSize := 2, data := [0x00, 0xC0] @ replicate 14 0,
      adrs := 0x4002, serial := Some 0x33 # Some 0x42 # ?eof, miso := [],
      mosi := erase_traffic @ flush_traffic 0x4000 [0x00, 0xC0]\<rparr>"
  have d16: "replicate 16 (0 :: byte) = 0 # 0 # replicate 14 0" by (simp add: numeral_eq_Suc)
  have b1: "data_byte (Suc 0) False 5 (?p (Some 0x30 # Some 0x30 # Some 0x43 # Some 0x30 # Some 0x33 # Some 0x42 # ?eof))
      = Return (5 + 0x00, ?q1)"
    by (subst data_byte_keep [where ?c0.0 = "0x30" and ?c1.0 = "0x30"
          and xs = "Some 0x43 # Some 0x30 # Some 0x33 # Some 0x42 # ?eof"])
       (simp_all add: cap hex2_values init_def)
  have b2: "data_byte (Suc 0) False (5 + 0x00) ?q1 = Return (5 + 0x00 + 0xC0, ?q2)"
    by (subst data_byte_flush [where ?c0.0 = "0x43" and ?c1.0 = "0x30"
          and xs = "Some 0x33 # Some 0x42 # ?eof" and r = "[]"])
       (simp_all add: cap hex2_type2 init_def stored_def d16)
  have l: "data_loop (Suc 0) False (Suc (Suc 0)) 5
      (?p (Some 0x30 # Some 0x30 # Some 0x43 # Some 0x30 # Some 0x33 # Some 0x42 # ?eof))
      = Return (5 + 0x00 + 0xC0, ?q2)"
    by (simp only: data_loop.simps b1 b2 bind_def result.case prod.case)
  have u: "unat (2 :: byte) = Suc (Suc 0)" by simp
  have "payload (Suc 0) 2 3 (2 + 0 + 0 + 3)
      (?p (Some 0x30 # Some 0x30 # Some 0x43 # Some 0x30 # Some 0x33 # Some 0x42 # ?eof))
      = data_loop (Suc 0) False (unat (2 :: byte)) 5
      (?p (Some 0x30 # Some 0x30 # Some 0x43 # Some 0x30 # Some 0x33 # Some 0x42 # ?eof))"
    by (simp add: payload_def)
  then have pl: "payload (Suc 0) 2 3 (2 + 0 + 0 + 3)
      (?p (Some 0x30 # Some 0x30 # Some 0x43 # Some 0x30 # Some 0x33 # Some 0x42 # ?eof))
      = Return (5 + 0x00 + 0xC0, ?q2)"
    by (simp only: u l)
  let ?r = "?q2\<lparr>startTime := clock ?q2, serial := ?eof\<rparr>"
  have c: "check_tail False (5 + 0x00 + 0xC0) ?q2 = Return (False, ?r)"
    by (subst check_tail_Some [where ?c0.0 = "0x33" and ?c1.0 = "0x42" and xs = ?eof])
       (simp_all add: hex2_type2)
  have r1: "read_record (Suc 0) ?e = Return (False, ?r)"
    unfolding read_record_Some [OF ser] hex2_values s1
    by (simp only: pl c bind_def result.case prod.case closing_values)
  have r2: "read_record (Suc 0) ?r = Return (True, ?r\<lparr>startTime := clock ?r, adrs := 0x4000, serial := []\<rparr>)"
    by (rule eof_record) simp
  have "records (Suc 0) ?e = Return (?r\<lparr>startTime := clock ?r, adrs := 0x4000, serial := []\<rparr>)"
    by (subst records.simps, simp only: r1 result.case prod.case if_False,
        subst records.simps, simp only: r2 result.case prod.case if_True)
  moreover have "?r\<lparr>startTime := clock ?r, adrs := 0x4000, serial := []\<rparr>
      = init\<lparr>type := Tiny10, progSize := 2, data := [0x00, 0xC0] @ replicate 14 0,
                    adrs := 0x4000, serial := [], miso := [],
                    mosi := erase_traffic @ flush_traffic 0x4000 [0x00, 0xC0]\<rparr>"
    by (simp add: init_def)
  ultimately show ?thesis
    unfolding writeProgram_def Let_def e by (simp only: bind_def result.case w)
qed

lemma record_dispatch:
  "read_record words (s\<lparr>serial := Some 0x3A # Some t0 # Some t1 # Some a0 # Some a1 # Some a2
       # Some a3 # Some y0 # Some y1 # xs\<rparr>)
     = (if hex2 y0 y1 = 2
        then bind (skip_loop (Suc (unat (hex2 t0 t1)))
                    (hex2 t0 t1 + hex2 a0 a1 + hex2 a2 a3 + hex2 y0 y1)
                    ((addressed (hex2 t0 t1) a0 a1 a2 a3 (s\<lparr>startTime := clock s\<rparr>))\<lparr>serial := xs\<rparr>))
               (\<lambda>(checkSum, s'). Return (False, s'))
        else bind (data_loop words (hex2 y0 y1 = 1) (unat (hex2 t0 t1))
                    (hex2 t0 t1 + hex2 a0 a1 + hex2 a2 a3 + hex2 y0 y1)
                    ((addressed (hex2 t0 t1) a0 a1 a2 a3 (s\<lparr>startTime := clock s\<rparr>))\<lparr>serial := xs\<rparr>))
               (\<lambda>(checkSum, s'). check_tail (hex2 y0 y1 = 1) checkSum s'))"
proof -
  let ?S = "s\<lparr>serial := Some 0x3A # Some t0 # Some t1 # Some a0 # Some a1 # Some a2
       # Some a3 # Some y0 # Some y1 # xs\<rparr>"
  have ser: "serial ?S = Some 0x3A # Some t0 # Some t1 # Some a0 # Some a1 # Some a2
       # Some a3 # Some y0 # Some y1 # xs" by simp
  have a: "(addressed (hex2 t0 t1) a0 a1 a2 a3 (?S\<lparr>startTime := clock ?S\<rparr>))\<lparr>serial := xs\<rparr>
      = (addressed (hex2 t0 t1) a0 a1 a2 a3 (s\<lparr>startTime := clock s\<rparr>))\<lparr>serial := xs\<rparr>"
    by (simp add: addressed_def Let_def)
  have k2: "(\<lambda>(cs2, s2). closing (2 :: byte) cs2 s2) = (\<lambda>(cs2, s2). Return (False, s2))"
    by (simp add: fun_eq_iff closing_def)
  have k: "(\<lambda>(cs2, s2). closing (hex2 y0 y1) cs2 s2)
      = (\<lambda>(cs2, s2). check_tail (hex2 y0 y1 = 1) cs2 s2)" if "hex2 y0 y1 \<noteq> 2"
    using that by (simp add: fun_eq_iff closing_def)
  show ?thesis
  proof (cases "hex2 y0 y1 = 2")
    case True
    show ?thesis
      unfolding read_record_Some [OF ser] a True k2
      by (simp add: payload_def del: skip_loop.simps)
  next
    case False
    show ?thesis
      unfolding read_record_Some [OF ser] a k [OF False]
      using False by (simp add: payload_def)
  qed
qed

lemma type3_traffic:
  "flush_traffic 0x4000 [0x00, 0xC0]
     = concat (map tpi_frame [SSTPRL, 0x00, SSTPRH, 0x40, 0xF3, NVM_WORD_WRITE,
                              SSTp, 0x00, SSTp, 0xC0]) @ [0xff, 0xff]
       @ tpi_frame 0x72 @ [0xff, 0xff]
       @ concat (map tpi_frame [0xF3, NVM_NOP]) @ [0xff, 0xff]
       @ concat (map tpi_frame [SSTPRL, 0x00, SSTPRH, 0x40])
       @ tpi_frame SLDp @ [0xff, 0xff] @ tpi_frame SLDp @ [0xff, 0xff]"
  by (simp add: flush_traffic_def pointer_frames_def)

text \<open>
  C2, on the code. Only type 2 has a branch of its own in the record loop: it reads the
  payload fields and the checksum field and stores nothing, as for the record
  \<open>:020000021200EA\<close>. A record of any other type, 0 or not, goes through the loop that stores the
  data bytes, with \<open>fileEnd\<close> set for type 1. So the two payload bytes of the type 3 record
  \<open>:0200000300C03B\<close> are put in the accumulator and counted as program bytes on an ATtiny20,
  and on an ATtiny10, whose write group is one word, they are written to the flash at
  \<open>0x4000\<close> with two \<^verbatim>\<open>SSTp\<close> stores and read back, and the load of this record and the
  end-of-file record returns with \<open>progSize = 2\<close>.
\<close>

theorem other_record_types_are_programmed:
  "read_record words (s\<lparr>serial := Some 0x3A # Some t0 # Some t1 # Some a0 # Some a1 # Some a2
       # Some a3 # Some y0 # Some y1 # xs\<rparr>)
     = (if hex2 y0 y1 = 2
        then bind (skip_loop (Suc (unat (hex2 t0 t1)))
                    (hex2 t0 t1 + hex2 a0 a1 + hex2 a2 a3 + hex2 y0 y1)
                    ((addressed (hex2 t0 t1) a0 a1 a2 a3 (s\<lparr>startTime := clock s\<rparr>))\<lparr>serial := xs\<rparr>))
               (\<lambda>(checkSum, s'). Return (False, s'))
        else bind (data_loop words (hex2 y0 y1 = 1) (unat (hex2 t0 t1))
                    (hex2 t0 t1 + hex2 a0 a1 + hex2 a2 a3 + hex2 y0 y1)
                    ((addressed (hex2 t0 t1) a0 a1 a2 a3 (s\<lparr>startTime := clock s\<rparr>))\<lparr>serial := xs\<rparr>))
               (\<lambda>(checkSum, s'). check_tail (hex2 y0 y1 = 1) checkSum s'))
   \<and> read_record 2 (init\<lparr>type := Tiny20, serial := chars '':0200000300C03B''\<rparr>)
     = Return (False, init\<lparr>type := Tiny20, progSize := 2, currentByte := 2,
                           data := [0x00, 0xC0] @ replicate 14 0, adrs := 0x4000, serial := []\<rparr>)
   \<and> writeProgram (init\<lparr>type := Tiny10, serial := chars '':0200000300C03B:00000001FF'',
                      miso := erase_reply @ flush_reply 1 [0x00, 0xC0]\<rparr>)
     = Return (init\<lparr>type := Tiny10, progSize := 2, data := [0x00, 0xC0] @ replicate 14 0,
                    adrs := 0x4000, serial := [], miso := [],
                    mosi := erase_traffic @ flush_traffic 0x4000 [0x00, 0xC0]\<rparr>)
   \<and> flush_traffic 0x4000 [0x00, 0xC0]
     = concat (map tpi_frame [SSTPRL, 0x00, SSTPRH, 0x40, 0xF3, NVM_WORD_WRITE,
                              SSTp, 0x00, SSTp, 0xC0]) @ [0xff, 0xff]
       @ tpi_frame 0x72 @ [0xff, 0xff]
       @ concat (map tpi_frame [0xF3, NVM_NOP]) @ [0xff, 0xff]
       @ concat (map tpi_frame [SSTPRL, 0x00, SSTPRH, 0x40])
       @ tpi_frame SLDp @ [0xff, 0xff] @ tpi_frame SLDp @ [0xff, 0xff]
   \<and> read_record words (s\<lparr>serial := chars '':020000021200EA'' @ rest\<rparr>)
     = Return (False, s\<lparr>startTime := clock s, adrs := 0x4000, currentByte := 0, serial := rest\<rparr>)"
proof -
  have "chars '':020000021200EA'' @ rest = chars '':020000021200'' @ Some 0x45 # Some 0x41 # rest"
    by (simp add: chars_def)
  then have "read_record words (s\<lparr>serial := chars '':020000021200EA'' @ rest\<rparr>)
     = Return (False, s\<lparr>startTime := clock s, adrs := 0x4000, currentByte := 0, serial := rest\<rparr>)"
    by (simp only: type2_any_checksum)
  with record_dispatch [where words = words and s = s and ?t0.0 = t0 and ?t1.0 = t1 and ?a0.0 = a0
      and ?a1.0 = a1 and ?a2.0 = a2 and ?a3.0 = a3 and ?y0.0 = y0 and ?y1.0 = y1 and xs = xs] type3_record type3_flash type3_traffic
  show ?thesis by (simp only: simp_thms)
qed


section \<open>Claims about the timeout\<close>

text \<open>
  No character arrives in the next \<open>n\<close> milliseconds.
\<close>

definition silent :: "nat \<Rightarrow> state \<Rightarrow> bool" where
  "silent n s = list_all (\<lambda>x. x = None) (take n (serial s))"

lemma wait_serial_returns: "wait_serial s \<noteq> Diverges"
proof (induction s rule: wait_serial.induct)
  case (1 s)
  show ?case
  proof (cases "available s \<or> clock s - startTime s > timeout s")
    case True
    then show ?thesis by (subst wait_serial.simps) auto
  next
    case False
    with 1 show ?thesis by (subst wait_serial.simps) simp
  qed
qed

lemma wait_serial_timeout:
  "startTime s \<le> clock s \<Longrightarrow>
   (\<exists>s'. wait_serial s = Abort TimeOut s')
     \<longleftrightarrow> silent (Suc (Suc (timeout s) - (clock s - startTime s))) s"
proof (induction s rule: wait_serial.induct)
  case (1 s)
  show ?case
  proof (cases "available s")
    case True
    then have "wait_serial s = Return s" by (subst wait_serial.simps) simp
    moreover from True have "\<not> silent (Suc (Suc (timeout s) - (clock s - startTime s))) s"
      by (auto simp: silent_def available_def split: list.splits option.splits)
    ultimately show ?thesis by simp
  next
    case False
    show ?thesis
    proof (cases "clock s - startTime s > timeout s")
      case True
      with False have "wait_serial s = Abort TimeOut s" by (subst wait_serial.simps) simp
      moreover from True have "Suc (timeout s) - (clock s - startTime s) = 0" by simp
      moreover from False have "silent (Suc 0) s"
        by (auto simp: silent_def available_def split: list.splits option.splits)
      ultimately show ?thesis by simp
    next
      case t: False
      with False have w: "wait_serial s = wait_serial (tick s)" by (subst wait_serial.simps) simp
      have st: "startTime (tick s) \<le> clock (tick s)" "timeout (tick s) = timeout s"
        "clock (tick s) - startTime (tick s) = Suc (clock s - startTime s)"
        using 1(2) by (simp_all add: tick_def)
      from t have k: "Suc (timeout s) - (clock s - startTime s)
          = Suc (Suc (timeout s) - Suc (clock s - startTime s))" by simp
      have "silent (Suc (Suc (timeout s) - (clock s - startTime s))) s
          \<longleftrightarrow> silent (Suc (Suc (timeout s) - Suc (clock s - startTime s))) (tick s)"
        using False unfolding k
        by (auto simp: silent_def available_def tick_def split: list.splits option.splits)
      with 1(1) [OF False t st(1)] show ?thesis unfolding w st by simp
    qed
  qed
qed

lemma Sread_silent: "list_all (\<lambda>x. x = None) (serial s) \<Longrightarrow> Sread s = Diverges"
proof (induction "serial s" arbitrary: s)
  case Nil
  then show ?case by (simp add: Sread_Nil)
next
  case (Cons x xs)
  from Cons(2) [symmetric] Cons(3) have m: "serial s = None # xs" and a: "list_all (\<lambda>x. x = None) xs"
    by simp_all
  have "Sread (s\<lparr>serial := xs, clock := Suc (clock s)\<rparr>) = Diverges"
    by (rule Cons(1)) (simp_all add: a)
  with m show ?case by (simp add: Sread_None)
qed

lemma read_record_timeout:
  assumes "silent (Suc (Suc (timeout s))) s"
  shows "\<exists>s'. read_record words s = Abort TimeOut s'"
proof -
  let ?s = "s\<lparr>startTime := clock s\<rparr>"
  have "silent (Suc (Suc (timeout ?s) - (clock ?s - startTime ?s))) ?s"
    using assms by (simp add: silent_def)
  then obtain s' where "wait_serial ?s = Abort TimeOut s'"
    using wait_serial_timeout [of ?s] by auto
  then show ?thesis by (simp add: read_record_def bind_def)
qed

lemma check_tail_timeout:
  assumes "silent (Suc (Suc (timeout s))) s"
  shows "\<exists>s'. check_tail fileEnd checkSum s = Abort TimeOut s'"
proof -
  let ?s = "s\<lparr>startTime := clock s\<rparr>"
  have "silent (Suc (Suc (timeout ?s) - (clock ?s - startTime ?s))) ?s"
    using assms by (simp add: silent_def)
  then obtain s' where "wait_serial ?s = Abort TimeOut s'"
    using wait_serial_timeout [of ?s] by auto
  then show ?thesis by (simp add: check_tail_def bind_def)
qed

lemma data_byte_timeout:
  assumes "startTime s \<le> clock s"
    and "silent (Suc (Suc (timeout s) - (clock s - startTime s))) s"
  shows "\<exists>s'. data_byte words fileEnd checkSum s = Abort TimeOut s'"
proof -
  from assms obtain s' where "wait_serial s = Abort TimeOut s'"
    using wait_serial_timeout [of s] by auto
  then show ?thesis by (simp add: data_byte_def bind_def)
qed

lemma after_colon_silence:
  assumes "list_all (\<lambda>x. x = None) xs"
  shows "read_record words (s\<lparr>serial := Some 0x3A # xs\<rparr>) = Diverges"
proof -
  let ?s0 = "s\<lparr>serial := Some 0x3A # xs, startTime := clock s\<rparr>"
  have w: "wait_serial ?s0 = Return ?s0" by (rule wait_serial_Some) simp
  have c: "colon ?s0 = Return (?s0\<lparr>serial := xs\<rparr>)" by (rule colon_Some) simp
  have "Sread (?s0\<lparr>serial := xs\<rparr>) = Diverges" by (rule Sread_silent) (simp add: assms)
  then have "read_header (?s0\<lparr>serial := xs\<rparr>) = Diverges"
    by (simp add: read_header_def read_field_def bind_def)
  then show ?thesis
    by (simp add: read_record_def record_body_def w c bind_def)
qed

text \<open>
  C5, as the code has it. Against the claim: a colon followed by silence. The record loop has
  taken the colon and reads the length field with \<^verbatim>\<open>Sread\<close>, whose wait has no timeout, so
  with no further character in 30000 ms and none after, against a timeout of 20000 ms,
  \<^verbatim>\<open>writeProgram\<close> neither reports a timeout nor returns.
\<close>

theorem silence_after_colon_blocks:
  "timeout init = 20000
   \<and> writeProgram (init\<lparr>type := Tiny10, serial := Some 0x3A # replicate 30000 None,
                       miso := erase_reply\<rparr>) = Diverges"
proof -
  let ?S = "init\<lparr>type := Tiny10, serial := Some 0x3A # replicate 30000 None,
      miso := erase_reply\<rparr>"
  let ?e = "?S\<lparr>progSize := 0, currentByte := 0, adrs := 0x4001, miso := [],
      mosi := mosi ?S @ erase_traffic\<rparr>"
  have e: "eraseChip (?S\<lparr>progSize := 0, currentByte := 0\<rparr>) = Return ?e"
    by (rule erased) simp
  have q: "?e\<lparr>serial := Some 0x3A # replicate 30000 None\<rparr> = ?e" by simp
  have "read_record (words_of (type ?e)) (?e\<lparr>serial := Some 0x3A # replicate 30000 None\<rparr>)
      = Diverges"
    by (rule after_colon_silence) (simp add: list_all_iff)
  then have "read_record (words_of (type ?e)) ?e = Diverges" by (simp only: q)
  then have "records (words_of (type ?e)) ?e = Diverges"
    by (subst records.simps) (simp only: result.case)
  with e have "writeProgram ?S = Diverges"
    by (simp only: writeProgram_def Let_def bind_def result.case)
  then show ?thesis by (simp add: init_def)
qed

text \<open>
  C5, as amended. The waits at the start of a record, before the first digit of each data byte
  and before the checksum field are loops that test the clock, and they always end. Such a
  wait reports a timeout exactly when no character has arrived at the first poll at which more
  than \<open>timeout\<close> milliseconds have passed since \<open>startTime\<close>, which takes
  \<open>timeout + 2\<close> silent slots less the milliseconds already passed. Hence silence for the
  whole window at the start of a record or before the checksum field, or for what is left of
  the record's window before a data byte, ends the load with \<open>TimeOut\<close>. All other characters are read by \<^verbatim>\<open>Sread\<close> alone, which has no
  timeout: on a line that stays silent it does not return, and neither does the record loop
  when the silence follows the colon.
\<close>

theorem guarded_waits_time_out:
  "wait_serial s \<noteq> Diverges
   \<and> (startTime s \<le> clock s \<longrightarrow>
        ((\<exists>s'. wait_serial s = Abort TimeOut s')
          \<longleftrightarrow> silent (Suc (Suc (timeout s) - (clock s - startTime s))) s))
   \<and> (silent (Suc (Suc (timeout s))) s \<longrightarrow> (\<exists>s'. read_record words s = Abort TimeOut s'))
   \<and> (silent (Suc (Suc (timeout s))) s \<longrightarrow>
        (\<exists>s'. check_tail fileEnd checkSum s = Abort TimeOut s'))
   \<and> (startTime s \<le> clock s \<and> silent (Suc (Suc (timeout s) - (clock s - startTime s))) s \<longrightarrow>
        (\<exists>s'. data_byte words fileEnd checkSum s = Abort TimeOut s'))
   \<and> (list_all (\<lambda>x. x = None) (serial s) \<longrightarrow> Sread s = Diverges)
   \<and> (list_all (\<lambda>x. x = None) xs \<longrightarrow>
        read_record words (s\<lparr>serial := Some 0x3A # xs\<rparr>) = Diverges)"
  using wait_serial_returns [of s] wait_serial_timeout [of s] read_record_timeout [of s words]
    check_tail_timeout [of s fileEnd checkSum] data_byte_timeout [of s words fileEnd checkSum]
    Sread_silent [of s] after_colon_silence [of xs words s]
  by blast

theorem guarded_waits_time_out_witness:
  "(\<exists>s'. read_record 1 (init\<lparr>timeout := 3, serial := replicate 5 None @ chars '':00000001FF''\<rparr>)
          = Abort TimeOut s')
   \<and> (\<exists>s'. check_tail False 0 (init\<lparr>timeout := 3, serial := replicate 5 None @ chars ''00''\<rparr>)
          = Abort TimeOut s')
   \<and> (\<exists>s'. data_byte 1 False 0 (init\<lparr>timeout := 3, serial := replicate 5 None @ chars ''00''\<rparr>)
          = Abort TimeOut s')
   \<and> \<not> (\<exists>s'. wait_serial (init\<lparr>timeout := 3, serial := replicate 4 None @ chars ''00''\<rparr>)
          = Abort TimeOut s')
   \<and> Sread (init\<lparr>serial := replicate 5 None\<rparr>) = Diverges
   \<and> read_record 1 (init\<lparr>serial := Some 0x3A # replicate 5 None\<rparr>) = Diverges"
proof -
  let ?a = "init\<lparr>timeout := 3, serial := replicate 5 None @ chars '':00000001FF''\<rparr>"
  let ?b = "init\<lparr>timeout := 3, serial := replicate 5 None @ chars ''00''\<rparr>"
  let ?c = "init\<lparr>timeout := 3, serial := replicate 4 None @ chars ''00''\<rparr>"
  let ?d = "init\<lparr>serial := replicate 5 None\<rparr>"
  have a: "silent (Suc (Suc (timeout ?a))) ?a" by (simp add: silent_def list_all_iff)
  have b: "silent (Suc (Suc (timeout ?b))) ?b" "startTime ?b \<le> clock ?b"
    "silent (Suc (Suc (timeout ?b) - (clock ?b - startTime ?b))) ?b"
    by (simp_all add: silent_def list_all_iff init_def)
  have c: "startTime ?c \<le> clock ?c"
    "\<not> silent (Suc (Suc (timeout ?c) - (clock ?c - startTime ?c))) ?c"
    by (simp_all add: silent_def list_all_iff init_def chars_def)
  have d: "list_all (\<lambda>x. x = None) (serial ?d)" "list_all (\<lambda>x. x = None) (replicate 5 (None :: byte option))"
    by (simp_all add: list_all_iff)
  from guarded_waits_time_out [of ?a 1] a
  have A: "\<exists>s'. read_record 1 ?a = Abort TimeOut s'" by blast
  from guarded_waits_time_out [of ?b 1 False 0] b
  have B: "\<exists>s'. check_tail False 0 ?b = Abort TimeOut s'"
    "\<exists>s'. data_byte 1 False 0 ?b = Abort TimeOut s'" by blast+
  from guarded_waits_time_out [of ?c] c
  have C: "\<not> (\<exists>s'. wait_serial ?c = Abort TimeOut s')" by blast
  from guarded_waits_time_out [of ?d 1 _ _ "replicate 5 None"] d
  have D: "Sread ?d = Diverges" "read_record 1 (?d\<lparr>serial := Some 0x3A # replicate 5 None\<rparr>) = Diverges"
    by blast+
  from A B C D show ?thesis by simp
qed


end
